theory Spec2Isabelle
  imports Complex_Main
begin

text \<open>
  A model of the activity collector of the editor extension: the event store, the
  statistics engine and the sync client of \<open>DataManager\<close>, the client
  \<open>ApiClient\<close>, and the edit buffer of \<open>ActivityTracker\<close>. Methods that change
  the object take its state and return the new one; the clock, the configuration, the
  open documents and the remote API are parameters.
\<close>

section \<open>Data model (types.ts)\<close>

text \<open>
  The enum \<open>ActivityType\<close> of the extension, one constructor per variant, in the
  order of the source.
\<close>

datatype ActivityType =
    FILE_OPEN | FILE_CLOSE | FILE_SWITCH | FILE_EDIT | FILE_SAVE | FILE_CREATE
  | FILE_DELETE | FILE_RENAME | COMMAND_EXECUTE | DEBUG_START | DEBUG_STOP
  | DEBUG_BREAKPOINT | TERMINAL_OPEN | TERMINAL_CLOSE | EXTENSION_INSTALL
  | EXTENSION_UNINSTALL | WORKSPACE_OPEN | WORKSPACE_CLOSE | FOCUS_GAINED
  | FOCUS_LOST | TASK_START | TASK_END | GIT_COMMIT | GIT_PUSH | GIT_PULL
  | SEARCH_PERFORMED

datatype EditType = Insert | Delete | Replace

text \<open>
  The part of \<open>FileActivityData\<close> that \<open>getFileData\<close> reads from an open document and
  the part \<open>flushEditBuffer\<close> adds to it (\<open>EditActivityData\<close>).
\<close>

record FileActivityData =
  fileName :: string
  filePath :: string
  language :: string

record EditActivityData = FileActivityData +
  charactersAdded :: nat
  charactersDeleted :: nat
  editType :: EditType

text \<open>
  The payload union \<open>ActivityData\<close>: the edit shape is kept in full, the other shapes,
  which no function below inspects, are one constructor.
\<close>

datatype ActivityData = EditData EditActivityData | OtherData

text \<open>
  \<open>ActivityEvent\<close>. A timestamp is a number of milliseconds since the epoch
  (\<open>Date.now()\<close>), an integer. The fields \<open>id\<close>, \<open>type\<close> and \<open>data\<close> are renamed
  \<open>ev_id\<close>, \<open>ev_type\<close> and \<open>ev_data\<close>.
\<close>

record ActivityEvent =
  ev_id :: string
  timestamp :: int
  ev_type :: ActivityType
  ev_data :: ActivityData
  workspaceId :: "string option"
  projectName :: "string option"
  sessionId :: string

record SessionData =
  s_id :: string
  startTime :: int
  endTime :: "int option"
  s_workspaceId :: "string option"
  s_projectName :: "string option"
  totalEvents :: nat
  s_activeTime :: int

section \<open>Statistics engine (DataManager)\<close>

subsection \<open>calculateActiveTime, calculateCodingTime\<close>

definition maxIdleTime :: int where
  "maxIdleTime = 5 * 60 * 1000"

definition activeEventTypes :: "ActivityType list" where
  "activeEventTypes = [FILE_EDIT, FILE_SWITCH, COMMAND_EXECUTE, FOCUS_GAINED]"

text \<open>
  One iteration of the loop of \<open>calculateActiveTime\<close> on the pair
  \<open>(activeTime, lastActiveTime)\<close>. The JavaScript test \<open>lastActiveTime && ...\<close> is
  false when \<open>lastActiveTime\<close> is \<open>0\<close>.
\<close>

definition activeStep :: "ActivityEvent \<Rightarrow> int \<times> int \<Rightarrow> int \<times> int" where
  "activeStep event st =
     (case st of (activeTime, lastActiveTime) \<Rightarrow>
        if ev_type event \<in> set activeEventTypes then
          ((if lastActiveTime \<noteq> 0 \<and> timestamp event - lastActiveTime < maxIdleTime
            then activeTime + (timestamp event - lastActiveTime)
            else activeTime),
           timestamp event)
        else (activeTime, lastActiveTime))"

text \<open>
  \<open>events.sort((a, b) => a.timestamp - b.timestamp)\<close> is a stable sort by timestamp,
  as \<open>sort_key\<close> is. The source sorts its argument in place; every caller hands it an
  array of its own (a \<open>filter\<close> result or a per-day group), and the value returned
  depends on the sorted order only.
\<close>

definition calculateActiveTime :: "ActivityEvent list \<Rightarrow> int" where
  "calculateActiveTime events =
     fst (fold activeStep (sort_key timestamp events) (0, 0))"

definition calculateCodingTime :: "ActivityEvent list \<Rightarrow> int" where
  "calculateCodingTime events =
     calculateActiveTime
       (filter (\<lambda>e. ev_type e \<in> set [FILE_EDIT, FILE_SAVE]) events)"

subsection \<open>calculateDebugTime\<close>

text \<open>
  One iteration on the pair \<open>(debugTime, debugStart)\<close>; \<open>&& debugStart\<close> is false when
  \<open>debugStart\<close> is \<open>0\<close>.
\<close>

definition debugStep :: "ActivityEvent \<Rightarrow> int \<times> int \<Rightarrow> int \<times> int" where
  "debugStep event st =
     (case st of (debugTime, debugStart) \<Rightarrow>
        if ev_type event = DEBUG_START then (debugTime, timestamp event)
        else if ev_type event = DEBUG_STOP \<and> debugStart \<noteq> 0
          then (debugTime + (timestamp event - debugStart), 0)
        else (debugTime, debugStart))"

definition calculateDebugTime :: "ActivityEvent list \<Rightarrow> int" where
  "calculateDebugTime events =
     fst (fold debugStep (sort_key timestamp events) (0, 0))"

text \<open>An event of a given type at a given time, the other fields empty.\<close>

definition mkEvent :: "ActivityType \<Rightarrow> int \<Rightarrow> ActivityEvent" where
  "mkEvent ty t =
     \<lparr>ev_id = [], timestamp = t, ev_type = ty, ev_data = OtherData,
      workspaceId = None, projectName = None, sessionId = []\<rparr>"

subsection \<open>calculateProductivityScore\<close>

text \<open>The table \<open>weights\<close> of \<open>calculateProductivityScore\<close>.\<close>

fun weights :: "ActivityType \<Rightarrow> int" where
  "weights FILE_EDIT = 3"
| "weights FILE_SAVE = 2"
| "weights FILE_CREATE = 4"
| "weights DEBUG_START = 2"
| "weights GIT_COMMIT = 5"
| "weights COMMAND_EXECUTE = 1"
| "weights FILE_OPEN = 1"
| "weights FILE_CLOSE = 0"
| "weights FILE_SWITCH = 1"
| "weights FILE_DELETE = 1"
| "weights FILE_RENAME = 1"
| "weights DEBUG_STOP = 0"
| "weights DEBUG_BREAKPOINT = 1"
| "weights TERMINAL_OPEN = 1"
| "weights TERMINAL_CLOSE = 0"
| "weights EXTENSION_INSTALL = 1"
| "weights EXTENSION_UNINSTALL = 0"
| "weights WORKSPACE_OPEN = 0"
| "weights WORKSPACE_CLOSE = 0"
| "weights FOCUS_GAINED = 0"
| "weights FOCUS_LOST = 0"
| "weights TASK_START = 2"
| "weights TASK_END = 1"
| "weights GIT_PUSH = 3"
| "weights GIT_PULL = 2"
| "weights SEARCH_PERFORMED = 1"

text \<open>
  JavaScript numbers are IEEE 754 doubles. A finite double is a rational, and an
  arithmetic operation returns the exact result rounded to the nearest double, a tie
  going to the even significand. \<open>toDouble\<close> is that rounding for the normal range
  (no overflow and no subnormal result, neither of which the score can reach: an array
  has fewer than \<open>2^32\<close> elements, so the sums below are exact integers under \<open>2^53\<close>
  and a nonzero quotient is above \<open>2^-35\<close>). \<open>bitLength n\<close> is the number of binary
  digits of a positive \<open>n\<close>, \<open>binade x\<close> the exponent \<open>e\<close> with \<open>2^e \<le> x < 2^(e+1)\<close>, and a
  double in that binade is a multiple of \<open>2^(e-52)\<close>.
\<close>

function bitLength :: "int \<Rightarrow> nat" where
  "bitLength n = (if n \<le> 0 then 0 else Suc (bitLength (n div 2)))"
  by pat_completeness auto
termination
  by (relation "measure nat") auto

declare bitLength.simps [simp del]

definition binade :: "rat \<Rightarrow> int" where
  "binade x =
     (if 1 \<le> x then int (bitLength \<lfloor>x\<rfloor>) - 1
      else - int (bitLength (\<lceil>1 / x\<rceil> - 1)))"

definition roundHalfEven :: "rat \<Rightarrow> int" where
  "roundHalfEven z =
     (if z - of_int \<lfloor>z\<rfloor> < 1 / 2 then \<lfloor>z\<rfloor>
      else if 1 / 2 < z - of_int \<lfloor>z\<rfloor> then \<lfloor>z\<rfloor> + 1
      else if even \<lfloor>z\<rfloor> then \<lfloor>z\<rfloor>
      else \<lfloor>z\<rfloor> + 1)"

definition roundPositive :: "rat \<Rightarrow> rat" where
  "roundPositive x =
     of_int (roundHalfEven (x * 2 powi (52 - binade x))) / 2 powi (52 - binade x)"

definition toDouble :: "rat \<Rightarrow> rat" where
  "toDouble x =
     (if x = 0 then 0
      else if x < 0 then - roundPositive (- x)
      else roundPositive x)"

text \<open>The operators \<open>/\<close> (by a nonzero divisor) and \<open>*\<close> on doubles.\<close>

definition numDivide :: "rat \<Rightarrow> rat \<Rightarrow> rat" where
  "numDivide a b = toDouble (a / b)"

definition numTimes :: "rat \<Rightarrow> rat \<Rightarrow> rat" where
  "numTimes a b = toDouble (a * b)"

text \<open>
  \<open>Math.round\<close> returns the integer nearest to its argument, a half going upwards;
  it is exact.
\<close>

definition mathRound :: "rat \<Rightarrow> int" where
  "mathRound x = \<lfloor>x + 1 / 2\<rfloor>"

definition calculateProductivityScore :: "ActivityEvent list \<Rightarrow> int" where
  "calculateProductivityScore events =
     (if length events = 0 then 0
      else
        let score = fold (\<lambda>event score. score + weights (ev_type event)) events 0;
            maxPossibleScore = int (length events) * 5
        in min 100
             (mathRound (numTimes (numDivide (of_int score) (of_int maxPossibleScore)) 100)))"

subsection \<open>getDailyActivity, calculateStreakData\<close>

text \<open>
  A JavaScript \<open>Map\<close> keeps its keys in insertion order: an association list, where
  \<open>set\<close> on a key that is present replaces the value in place.
\<close>

fun mapSet :: "('k \<times> 'v) list \<Rightarrow> 'k \<Rightarrow> 'v \<Rightarrow> ('k \<times> 'v) list" where
  "mapSet [] k v = [(k, v)]"
| "mapSet ((k', v') # m) k v = (if k' = k then (k, v) # m else (k', v') # mapSet m k v)"

definition mapHas :: "('k \<times> 'v) list \<Rightarrow> 'k \<Rightarrow> bool" where
  "mapHas m k = (map_of m k \<noteq> None)"

text \<open>
  The key \<open>date.toISOString().split('T')[0]\<close> is the UTC calendar day of a timestamp,
  written \<open>YYYY-MM-DD\<close>. It is represented by the number of that day since the epoch:
  two timestamps have the same key exactly when they have the same day number, and
  \<open>localeCompare\<close> on the keys is the order of the day numbers.
\<close>

definition dateKey :: "int \<Rightarrow> int" where
  "dateKey ts = ts div 86400000"

record DailyBucket =
  date :: int
  day_events :: nat
  day_activeTime :: int

text \<open>
  \<open>getDailyActivity\<close>. The key seeded at iteration \<open>i\<close> comes from the clock and the
  local time zone (\<open>new Date()\<close>, \<open>setDate(getDate() - i)\<close>); it is the parameter
  \<open>seedKey\<close>. The three loops of the source are the three folds. Timestamps are
  taken in the range of a \<open>Date\<close>, where \<open>toISOString\<close> does not throw.
\<close>

definition getDailyActivity ::
    "(nat \<Rightarrow> int) \<Rightarrow> ActivityEvent list \<Rightarrow> nat \<Rightarrow> DailyBucket list" where
  "getDailyActivity seedKey events days =
     (let seeded = fold (\<lambda>i m. mapSet m (seedKey i) (0, 0)) [0..<days] [];
          eventsByDay =
            fold (\<lambda>event m.
                    case map_of m (dateKey (timestamp event)) of
                      None \<Rightarrow> mapSet m (dateKey (timestamp event)) [event]
                    | Some dayEvents \<Rightarrow>
                        mapSet m (dateKey (timestamp event)) (dayEvents @ [event]))
              events [];
          dailyActivity =
            fold (\<lambda>entry m.
                    case entry of (key, dayEvents) \<Rightarrow>
                      if mapHas m key
                      then mapSet m key (length dayEvents, calculateActiveTime dayEvents)
                      else m)
              eventsByDay seeded
      in sort_key date
           (map (\<lambda>entry. case entry of (key, n, t) \<Rightarrow>
                   \<lparr>date = key, day_events = n, day_activeTime = t\<rparr>)
              dailyActivity))"

record StreakData =
  current :: nat
  longest :: nat

text \<open>
  The body of the loop of \<open>calculateStreakData\<close> at index \<open>i\<close>, on the triple
  \<open>(currentStreak, longestStreak, tempStreak)\<close>.
\<close>

definition streakStep ::
    "DailyBucket list \<Rightarrow> nat \<Rightarrow> nat \<times> nat \<times> nat \<Rightarrow> nat \<times> nat \<times> nat" where
  "streakStep dailyActivity i st =
     (case st of (currentStreak, longestStreak, tempStreak) \<Rightarrow>
        if day_events (dailyActivity ! i) > 0 then
          ((if i = length dailyActivity - 1 then tempStreak + 1 else currentStreak),
           longestStreak,
           tempStreak + 1)
        else
          ((if i = length dailyActivity - 1 then 0 else currentStreak),
           (if tempStreak > longestStreak then tempStreak else longestStreak),
           0))"

text \<open>
  \<open>for (let i = dailyActivity.length - 1; i >= 0; i--)\<close>: \<open>streakLoop d n\<close> runs the
  indices \<open>n - 1\<close> down to \<open>0\<close>, all below the length when \<open>n\<close> is the length.
\<close>

fun streakLoop ::
    "DailyBucket list \<Rightarrow> nat \<Rightarrow> nat \<times> nat \<times> nat \<Rightarrow> nat \<times> nat \<times> nat" where
  "streakLoop dailyActivity 0 st = st"
| "streakLoop dailyActivity (Suc i) st =
     streakLoop dailyActivity i (streakStep dailyActivity i st)"

text \<open>
  \<open>calculateStreakData\<close> from the histogram on: the loop and the object returned.
  The function itself, which first takes the histogram of the whole log, follows the
  store below.
\<close>

definition streakOf :: "DailyBucket list \<Rightarrow> StreakData" where
  "streakOf dailyActivity =
     (case streakLoop dailyActivity (length dailyActivity) (0, 0, 0) of
        (currentStreak, longestStreak, tempStreak) \<Rightarrow>
          \<lparr>current = currentStreak, longest = max longestStreak tempStreak\<rparr>)"

section \<open>Event store (DataManager)\<close>

record SyncResult =
  success :: bool
  message :: "string option"
  error :: "string option"

text \<open>
  The state of a \<open>DataManager\<close>: its fields \<open>events\<close>, \<open>sessions\<close>, \<open>currentSession\<close>
  and \<open>saveTimer\<close> (whether a debounce timer is pending), and what it reaches through
  its collaborators: \<open>lastSyncTime\<close> is the entry of that name in \<open>globalState\<close> (absent
  at first), \<open>sessionToken\<close> the token of its \<open>ApiClient\<close>. Two logs record its
  effects: \<open>saveCalls\<close> counts the calls of \<open>saveData\<close>, \<open>requests\<close> lists the batches
  posted to the remote API.
\<close>

record DataManager =
  events :: "ActivityEvent list"
  sessions :: "SessionData list"
  currentSession :: "SessionData option"
  saveTimer :: bool
  saveCalls :: nat
  lastSyncTime :: "int option"
  sessionToken :: "string option"
  requests :: "(ActivityEvent list \<times> SessionData list) list"

definition maxEvents :: nat where
  "maxEvents = 50000"

text \<open>\<open>Math.floor(this.maxEvents * 0.8)\<close>, which is \<open>40000\<close>.\<close>

definition keptEvents :: nat where
  "keptEvents = (maxEvents * 8) div 10"

text \<open>\<open>xs.slice(-k)\<close> for a positive \<open>k\<close>: the last \<open>k\<close> elements, all of them when there are fewer.\<close>

definition sliceLast :: "nat \<Rightarrow> 'a list \<Rightarrow> 'a list" where
  "sliceLast k xs = drop (length xs - k) xs"

definition isCriticalEvent :: "ActivityType \<Rightarrow> bool" where
  "isCriticalEvent ty \<longleftrightarrow> ty \<in> set [WORKSPACE_OPEN, WORKSPACE_CLOSE, DEBUG_START, GIT_COMMIT]"

text \<open>\<open>addEvent\<close>; \<open>now\<close> is the value of \<open>Date.now()\<close> during the call.\<close>

definition addEvent :: "int \<Rightarrow> ActivityEvent \<Rightarrow> DataManager \<Rightarrow> DataManager" where
  "addEvent now event dm =
     (let pushed = events dm @ [event];
          session =
            (case currentSession dm of
               None \<Rightarrow> None
             | Some cur \<Rightarrow> Some (cur\<lparr>totalEvents := totalEvents cur + 1, endTime := Some now\<rparr>));
          bounded = (if length pushed > maxEvents then sliceLast keptEvents pushed else pushed);
          dm' = dm\<lparr>events := bounded, currentSession := session\<rparr>
      in if isCriticalEvent (ev_type event)
         then dm'\<lparr>saveCalls := saveCalls dm' + 1\<rparr>
         else dm'\<lparr>saveTimer := True\<rparr>)"

text \<open>
  \<open>getEvents\<close>, with the state it leaves: the source assigns to no field. A bound is
  the \<open>getTime()\<close> of the \<open>Date\<close> passed, \<open>None\<close> when the argument is omitted.
\<close>

definition getEvents ::
    "int option \<Rightarrow> int option \<Rightarrow> DataManager \<Rightarrow> ActivityEvent list \<times> DataManager" where
  "getEvents startDate endDate dm =
     (let filteredEvents = events dm;
          filteredEvents =
            (case startDate of
               None \<Rightarrow> filteredEvents
             | Some start \<Rightarrow> filter (\<lambda>e. timestamp e \<ge> start) filteredEvents);
          filteredEvents =
            (case endDate of
               None \<Rightarrow> filteredEvents
             | Some end \<Rightarrow> filter (\<lambda>e. timestamp e \<le> end) filteredEvents)
      in (filteredEvents, dm))"

definition calculateStreakData :: "(nat \<Rightarrow> int) \<Rightarrow> DataManager \<Rightarrow> nat \<Rightarrow> StreakData" where
  "calculateStreakData seedKey dm days = streakOf (getDailyActivity seedKey (events dm) days)"

section \<open>Sync client (ApiClient.syncActivityData, DataManager.syncDataWithAPI)\<close>

text \<open>
  What a \<open>catch\<close> receives: an \<open>Error\<close> with its message, or any other value. The
  remote API is a parameter \<open>post\<close>: on a batch it answers with the \<open>data\<close> of the
  response or fails (network error, timeout, HTTP error status).
\<close>

datatype Thrown = ErrorObject string | OtherValue

datatype HttpOutcome = Responded SyncResult | Rejected Thrown

type_synonym RemoteApi = "ActivityEvent list \<Rightarrow> SessionData list \<Rightarrow> HttpOutcome"

text \<open>
  \<open>ApiClient.syncActivityData\<close>: the value returned or the error rethrown, and the
  batches posted (none or one). \<open>!this.sessionToken\<close> holds for an absent token and for
  the empty string.
\<close>

definition syncActivityData ::
    "RemoteApi \<Rightarrow> string option \<Rightarrow> ActivityEvent list \<Rightarrow> SessionData list
      \<Rightarrow> (Thrown + SyncResult) \<times> (ActivityEvent list \<times> SessionData list) list" where
  "syncActivityData post token evs sess =
     (if token = None \<or> token = Some []
      then (Inr \<lparr>success = False, message = None, error = Some ''Not authenticated''\<rparr>, [])
      else (case post evs sess of
              Responded datum \<Rightarrow> (Inr datum, [(evs, sess)])
            | Rejected thrown \<Rightarrow> (Inl thrown, [(evs, sess)])))"

text \<open>\<open>this.context.globalState.get<number>('lastSyncTime', 0)\<close>.\<close>

definition watermark :: "DataManager \<Rightarrow> int" where
  "watermark dm = (case lastSyncTime dm of None \<Rightarrow> 0 | Some t \<Rightarrow> t)"

text \<open>The selections \<open>eventsToSync\<close> and \<open>sessionsToSync\<close> of \<open>syncDataWithAPI\<close>.\<close>

definition eventsToSync :: "DataManager \<Rightarrow> ActivityEvent list" where
  "eventsToSync dm = filter (\<lambda>e. timestamp e > watermark dm) (events dm)"

definition sessionsToSync :: "DataManager \<Rightarrow> SessionData list" where
  "sessionsToSync dm = filter (\<lambda>s. startTime s > watermark dm) (sessions dm)"

text \<open>
  The \<open>try\<close> block of \<open>syncDataWithAPI\<close>: \<open>Inl\<close> is an exception leaving the block.
  \<open>syncEnabled\<close> is the configuration option \<open>enableSync\<close>, \<open>now\<close> the value of
  \<open>Date.now()\<close> when the watermark is written.
\<close>

definition syncTry ::
    "bool \<Rightarrow> RemoteApi \<Rightarrow> int \<Rightarrow> DataManager \<Rightarrow> (Thrown + SyncResult) \<times> DataManager" where
  "syncTry syncEnabled post now dm =
     (if \<not> syncEnabled
      then (Inr \<lparr>success = False, message = Some ''Sync not enabled'', error = None\<rparr>, dm)
      else
        if length (eventsToSync dm) = 0 \<and> length (sessionsToSync dm) = 0
        then (Inr \<lparr>success = True, message = Some ''No new data to sync'', error = None\<rparr>, dm)
        else
             (case syncActivityData post (sessionToken dm) (eventsToSync dm) (sessionsToSync dm) of
                (Inl thrown, posted) \<Rightarrow>
                  (Inl thrown, dm\<lparr>requests := requests dm @ posted\<rparr>)
              | (Inr result, posted) \<Rightarrow>
                  (Inr result,
                   (if success result
                    then dm\<lparr>requests := requests dm @ posted, lastSyncTime := Some now\<rparr>
                    else dm\<lparr>requests := requests dm @ posted\<rparr>))))"

text \<open>\<open>error instanceof Error ? error.message : 'Unknown error'\<close>.\<close>

definition catchMessage :: "Thrown \<Rightarrow> string" where
  "catchMessage thrown =
     (case thrown of ErrorObject msg \<Rightarrow> msg | OtherValue \<Rightarrow> ''Unknown error'')"

text \<open>\<open>syncDataWithAPI\<close>: the \<open>try\<close> block and its \<open>catch\<close>.\<close>

definition syncDataWithAPI ::
    "bool \<Rightarrow> RemoteApi \<Rightarrow> int \<Rightarrow> DataManager \<Rightarrow> SyncResult \<times> DataManager" where
  "syncDataWithAPI syncEnabled post now dm =
     (case syncTry syncEnabled post now dm of
        (Inr result, dm') \<Rightarrow> (result, dm')
      | (Inl thrown, dm') \<Rightarrow>
          (\<lparr>success = False, message = None, error = Some (catchMessage thrown)\<rparr>, dm'))"

section \<open>Event normalizer (ActivityTracker)\<close>

record TextDocument =
  doc_fileName :: string
  doc_fsPath :: string
  languageId :: string

text \<open>A content change of a \<open>TextDocumentChangeEvent\<close>: its \<open>rangeLength\<close> and its \<open>text\<close>.\<close>

record ContentChange =
  rangeLength :: nat
  text_of :: string

record EditBufferEntry =
  added :: nat
  deleted :: nat
  edits :: nat

text \<open>
  The state of an \<open>ActivityTracker\<close> that the edit buffer touches: the maps
  \<open>editBuffer\<close> and \<open>lastEditTime\<close>, the flag \<open>isActive\<close>, and \<open>tracked\<close>, the events it
  has handed to \<open>DataManager.addEvent\<close> (type and payload; \<open>createEvent\<close> adds the id,
  the time and the session).
\<close>

record ActivityTracker =
  editBuffer :: "string \<rightharpoonup> EditBufferEntry"
  lastEditTime :: "string \<rightharpoonup> int"
  isActive :: bool
  tracked :: "(ActivityType \<times> ActivityData) list"

text \<open>\<open>trackEvent\<close>; \<open>trackingEnabled\<close> is the configuration option \<open>enableTracking\<close>.\<close>

definition trackEvent ::
    "bool \<Rightarrow> ActivityType \<Rightarrow> ActivityData \<Rightarrow> ActivityTracker \<Rightarrow> ActivityTracker" where
  "trackEvent trackingEnabled ty payload tr =
     (if \<not> trackingEnabled \<or> \<not> isActive tr then tr
      else tr\<lparr>tracked := tracked tr @ [(ty, payload)]\<rparr>)"

text \<open>The last component of a path split at \<open>/\<close> and \<open>\\\<close>, as \<open>getFileData\<close> takes it.\<close>

definition lastPathPart :: "string \<Rightarrow> string" where
  "lastPathPart path =
     rev (takeWhile (\<lambda>c. c \<noteq> CHR ''/'' \<and> c \<noteq> CHR 0x5C) (rev path))"

definition getFileData :: "TextDocument \<Rightarrow> FileActivityData" where
  "getFileData document =
     \<lparr>fileName = lastPathPart (doc_fileName document),
      filePath = doc_fsPath document,
      language = languageId document\<rparr>"

definition updateEditBuffer ::
    "string \<Rightarrow> ContentChange list \<Rightarrow> ActivityTracker \<Rightarrow> ActivityTracker" where
  "updateEditBuffer path changes tr =
     (let buffer =
            (case editBuffer tr path of
               None \<Rightarrow> \<lparr>added = 0, deleted = 0, edits = 0\<rparr>
             | Some b \<Rightarrow> b);
          buffer' =
            fold (\<lambda>change b.
                    b\<lparr>deleted := deleted b + rangeLength change,
                      added := added b + length (text_of change),
                      edits := edits b + 1\<rparr>)
              changes buffer
      in tr\<lparr>editBuffer := (editBuffer tr)(path \<mapsto> buffer')\<rparr>)"

text \<open>The two \<open>delete\<close> calls that end every path of \<open>flushEditBuffer\<close>.\<close>

definition dropEntry :: "string \<Rightarrow> ActivityTracker \<Rightarrow> ActivityTracker" where
  "dropEntry path tr =
     tr\<lparr>editBuffer := (editBuffer tr)(path := None),
        lastEditTime := (lastEditTime tr)(path := None)\<rparr>"

text \<open>\<open>flushEditBuffer\<close>; \<open>textDocuments\<close> is \<open>vscode.workspace.textDocuments\<close>.\<close>

definition flushEditBuffer ::
    "TextDocument list \<Rightarrow> bool \<Rightarrow> string \<Rightarrow> ActivityTracker \<Rightarrow> ActivityTracker" where
  "flushEditBuffer textDocuments trackingEnabled path tr =
     (case editBuffer tr path of
        None \<Rightarrow> dropEntry path tr
      | Some buffer \<Rightarrow>
          if added buffer = 0 \<and> deleted buffer = 0 then dropEntry path tr
          else
            (case find (\<lambda>doc. doc_fsPath doc = path) textDocuments of
               None \<Rightarrow> dropEntry path tr
             | Some document \<Rightarrow>
                 let fileData = getFileData document;
                     editData =
                       \<lparr>fileName = fileName fileData,
                        filePath = filePath fileData,
                        language = language fileData,
                        charactersAdded = added buffer,
                        charactersDeleted = deleted buffer,
                        editType =
                          (if added buffer > 0 \<and> deleted buffer > 0 then Replace
                           else if added buffer > 0 then Insert
                           else Delete)\<rparr>
                 in dropEntry path (trackEvent trackingEnabled FILE_EDIT (EditData editData) tr)))"

section \<open>Reference functions and sample inputs\<close>

subsection \<open>Gap merging\<close>

text \<open>
  The timestamps of the qualifying events of a list, in timestamp order.
\<close>

definition qualifying :: "ActivityEvent list \<Rightarrow> int list" where
  "qualifying es =
     map timestamp (filter (\<lambda>e. ev_type e \<in> set activeEventTypes) (sort_key timestamp es))"

text \<open>
  The sum over the pairs of consecutive timestamps of a list: a gap counts when it is
  strictly below the idle threshold and the earlier timestamp is not \<open>0\<close>.
\<close>

fun countedGaps :: "int list \<Rightarrow> int" where
  "countedGaps (a # b # ts) =
     (if a \<noteq> 0 \<and> b - a < maxIdleTime then b - a else 0) + countedGaps (b # ts)"
| "countedGaps [a] = 0"
| "countedGaps [] = 0"

subsection \<open>Pairing of debug sessions\<close>

text \<open>
  Debug time by pairing, on a list already in timestamp order. The first argument is
  the start that is open, if any. A start opens (a start at time \<open>0\<close> leaves none
  open), the next stop closes the open start and adds the difference, a stop with no
  open start adds nothing, and a start still open at the end adds nothing.
\<close>

fun pairedDebugTime :: "int option \<Rightarrow> ActivityEvent list \<Rightarrow> int" where
  "pairedDebugTime opened [] = 0"
| "pairedDebugTime opened (e # es) =
     (if ev_type e = DEBUG_START then
        pairedDebugTime (if timestamp e = 0 then None else Some (timestamp e)) es
      else if ev_type e = DEBUG_STOP then
        (case opened of
           Some s \<Rightarrow> (timestamp e - s) + pairedDebugTime None es
         | None \<Rightarrow> pairedDebugTime None es)
      else pairedDebugTime opened es)"

subsection \<open>Runs of days with events\<close>

text \<open>
  The event counts of a histogram from the most recent day backwards, the length of
  the run of days with events that starts a list of counts, and the length of the
  longest run anywhere in it.
\<close>

definition countsBackward :: "DailyBucket list \<Rightarrow> nat list" where
  "countsBackward d = rev (map day_events d)"

definition leadingRun :: "nat list \<Rightarrow> nat" where
  "leadingRun counts = length (takeWhile (\<lambda>n. 0 < n) counts)"

fun longestRun :: "nat list \<Rightarrow> nat" where
  "longestRun [] = 0"
| "longestRun (n # counts) = max (leadingRun (n # counts)) (longestRun counts)"

text \<open>What one day does to the pair \<open>(longestStreak, tempStreak)\<close>.\<close>

fun runStep :: "nat \<Rightarrow> nat \<times> nat \<Rightarrow> nat \<times> nat" where
  "runStep n (l, t) = (if 0 < n then (l, t + 1) else (max l t, 0))"

subsection \<open>Query window, edit types, sync results\<close>

definition inWindow :: "int option \<Rightarrow> int option \<Rightarrow> ActivityEvent \<Rightarrow> bool" where
  "inWindow startDate endDate e \<longleftrightarrow>
     (case startDate of None \<Rightarrow> True | Some start \<Rightarrow> start \<le> timestamp e)
     \<and> (case endDate of None \<Rightarrow> True | Some end \<Rightarrow> timestamp e \<le> end)"

definition derivedEditType :: "nat \<Rightarrow> nat \<Rightarrow> EditType option" where
  "derivedEditType a d =
     (if a \<noteq> 0 \<and> d \<noteq> 0 then Some Replace
      else if a \<noteq> 0 \<and> d = 0 then Some Insert
      else if a = 0 \<and> d \<noteq> 0 then Some Delete
      else None)"

definition noNewData :: SyncResult where
  "noNewData = \<lparr>success = True, message = Some ''No new data to sync'', error = None\<rparr>"

definition syncNotEnabled :: SyncResult where
  "syncNotEnabled = \<lparr>success = False, message = Some ''Sync not enabled'', error = None\<rparr>"

definition notAuthenticated :: SyncResult where
  "notAuthenticated = \<lparr>success = False, message = None, error = Some ''Not authenticated''\<rparr>"

definition tokenMissing :: "DataManager \<Rightarrow> bool" where
  "tokenMissing dm \<longleftrightarrow> sessionToken dm = None \<or> sessionToken dm = Some []"

definition pendingData :: "DataManager \<Rightarrow> bool" where
  "pendingData dm \<longleftrightarrow> eventsToSync dm \<noteq> [] \<or> sessionsToSync dm \<noteq> []"

subsection \<open>Sample inputs\<close>

text \<open>Three remote APIs: one that accepts, one that answers \<open>success: false\<close>, one that fails.\<close>

definition okApi :: RemoteApi where
  "okApi evs sess = Responded \<lparr>success = True, message = None, error = None\<rparr>"

definition refusingApi :: RemoteApi where
  "refusingApi evs sess =
     Responded \<lparr>success = False, message = None, error = Some ''Invalid payload''\<rparr>"

definition failingApi :: RemoteApi where
  "failingApi evs sess = Rejected (ErrorObject ''Network Error'')"

definition emptyManager :: DataManager where
  "emptyManager =
     \<lparr>events = [], sessions = [], currentSession = None, saveTimer = False,
      saveCalls = 0, lastSyncTime = None, sessionToken = None, requests = []\<rparr>"

text \<open>A store whose only event is older than its watermark, and one never synced.\<close>

definition dmSynced :: DataManager where
  "dmSynced =
     emptyManager\<lparr>events := [mkEvent FILE_EDIT 5], lastSyncTime := Some 10,
                  sessionToken := Some ''token''\<rparr>"

definition dmPending :: DataManager where
  "dmPending = emptyManager\<lparr>events := [mkEvent FILE_EDIT 5], sessionToken := Some ''token''\<rparr>"

text \<open>
  A host in UTC seeds the day of \<open>now\<close> and the days before it. The log
  \<open>threeDayLog\<close> has one edit on each of the days 98, 99 and 100 since the epoch.
\<close>

definition utcSeedKey :: "int \<Rightarrow> nat \<Rightarrow> int" where
  "utcSeedKey now i = dateKey now - int i"

definition threeDayLog :: "ActivityEvent list" where
  "threeDayLog =
     [mkEvent FILE_EDIT (86400000 * 98 + 1000),
      mkEvent FILE_EDIT (86400000 * 99 + 1000),
      mkEvent FILE_EDIT (86400000 * 100 + 1000)]"

text \<open>Four commits, an edit and three closed files: a weight sum of 23 over 8 events.\<close>

definition sampleSlice :: "ActivityEvent list" where
  "sampleSlice =
     [mkEvent GIT_COMMIT 1000, mkEvent GIT_COMMIT 2000, mkEvent GIT_COMMIT 3000,
      mkEvent GIT_COMMIT 4000, mkEvent FILE_EDIT 5000, mkEvent FILE_CLOSE 6000,
      mkEvent FILE_CLOSE 7000, mkEvent FILE_CLOSE 8000]"

definition sampleDoc :: TextDocument where
  "sampleDoc =
     \<lparr>doc_fileName = ''/src/app.ts'', doc_fsPath = ''/src/app.ts'', languageId = ''typescript''\<rparr>"

definition sampleTracker :: ActivityTracker where
  "sampleTracker =
     \<lparr>editBuffer = [''/src/app.ts'' \<mapsto> \<lparr>added = 0, deleted = 4, edits = 2\<rparr>],
      lastEditTime = [''/src/app.ts'' \<mapsto> 1000],
      isActive = True, tracked = []\<rparr>"

section \<open>Statistics engine: theorems\<close>

subsection \<open>Active time\<close>

lemma activeStep_pair:
  "activeStep e (acc, l) =
     (if ev_type e \<in> {FILE_EDIT, FILE_SWITCH, COMMAND_EXECUTE, FOCUS_GAINED}
      then ((if l \<noteq> 0 \<and> timestamp e - l < maxIdleTime then acc + (timestamp e - l) else acc),
            timestamp e)
      else (acc, l))"
  by (simp add: activeStep_def activeEventTypes_def)

lemma fold_activeStep_gaps:
  "fst (fold activeStep xs (acc, l)) =
     acc + countedGaps (l # map timestamp (filter (\<lambda>e. ev_type e \<in> set activeEventTypes) xs))"
  by (induction xs arbitrary: acc l) (simp_all add: activeStep_pair activeEventTypes_def)

lemma countedGaps_zero_head: "countedGaps (0 # ts) = countedGaps ts"
  by (cases ts) simp_all

text \<open>
  Claim C2, as the code has it. The active time is the sum, over the pairs of
  consecutive qualifying events in timestamp order, of the gaps that are strictly
  below the five-minute threshold and whose earlier event is not at time \<open>0\<close>; every
  other gap adds nothing. Active events at 1000, 61000 and 401000 give 60000.
\<close>

theorem calculateActiveTime_counted_gaps:
  "calculateActiveTime es = countedGaps (qualifying es)
   \<and> calculateActiveTime
        [mkEvent FILE_EDIT 1000, mkEvent FILE_SWITCH 61000, mkEvent COMMAND_EXECUTE 401000]
      = 60000"
proof -
  have general: "\<And>xs. calculateActiveTime xs = countedGaps (qualifying xs)"
    by (simp add: calculateActiveTime_def qualifying_def fold_activeStep_gaps
        countedGaps_zero_head)
  have "qualifying
          [mkEvent FILE_EDIT 1000, mkEvent FILE_SWITCH 61000, mkEvent COMMAND_EXECUTE 401000]
        = [1000, 61000, 401000]"
    by (simp add: qualifying_def mkEvent_def activeEventTypes_def)
  then have "calculateActiveTime
        [mkEvent FILE_EDIT 1000, mkEvent FILE_SWITCH 61000, mkEvent COMMAND_EXECUTE 401000]
      = 60000"
    by (simp add: general maxIdleTime_def)
  with general show ?thesis by simp
qed

text \<open>
  Claim C2 as stated fails at its own example: with active events at 0, 60000 and
  400000 the first event leaves \<open>lastActiveTime\<close> at \<open>0\<close>, which the loop reads as
  "no previous event", so the gap of one minute is not counted and the result is 0.
\<close>

theorem calculateActiveTime_epoch_counterexample:
  "calculateActiveTime
     [mkEvent FILE_EDIT 0, mkEvent FILE_SWITCH 60000, mkEvent COMMAND_EXECUTE 400000] = 0
   \<and> calculateActiveTime
       [mkEvent FILE_EDIT 0, mkEvent FILE_SWITCH 60000, mkEvent COMMAND_EXECUTE 400000]
     \<noteq> 60000"
  by (simp add: calculateActiveTime_def activeStep_pair mkEvent_def maxIdleTime_def)

subsection \<open>Coding time against active time\<close>

lemma coding_fold_le_active_fold:
  assumes "sorted (map timestamp xs)"
    and "\<forall>e\<in>set xs. a \<le> timestamp e"
    and "\<forall>e\<in>set xs. 0 < timestamp e"
    and "0 \<le> c" and "c \<le> a" and "accC \<le> accA"
    and "c \<noteq> 0 \<and> a - c < maxIdleTime \<longrightarrow> accC + (a - c) \<le> accA"
  shows "fst (fold activeStep (filter (\<lambda>e. ev_type e \<in> set [FILE_EDIT, FILE_SAVE]) xs) (accC, c))
       \<le> fst (fold activeStep xs (accA, a))"
  using assms
proof (induction xs arbitrary: accC c accA a)
  case Nil
  then show ?case by simp
next
  case (Cons e xs)
  let ?t = "timestamp e"
  have srt: "sorted (map timestamp xs)" and ge: "\<forall>x\<in>set xs. ?t \<le> timestamp x"
    using Cons.prems(1) by auto
  have pos: "\<forall>x\<in>set xs. 0 < timestamp x" and tpos: "0 < ?t" and at: "a \<le> ?t"
    using Cons.prems(2,3) by auto
  consider (edit) "ev_type e = FILE_EDIT"
    | (save) "ev_type e = FILE_SAVE"
    | (act) "ev_type e \<in> {FILE_SWITCH, COMMAND_EXECUTE, FOCUS_GAINED}"
    | (other) "ev_type e \<notin> {FILE_EDIT, FILE_SAVE, FILE_SWITCH, COMMAND_EXECUTE, FOCUS_GAINED}"
    by blast
  then show ?case
  proof cases
    case edit
    let ?accC = "if c \<noteq> 0 \<and> ?t - c < maxIdleTime then accC + (?t - c) else accC"
    let ?accA = "if a \<noteq> 0 \<and> ?t - a < maxIdleTime then accA + (?t - a) else accA"
    have le: "?accC \<le> ?accA"
      using Cons.prems(4-7) at by auto
    have "fst (fold activeStep (filter (\<lambda>e. ev_type e \<in> set [FILE_EDIT, FILE_SAVE]) xs) (?accC, ?t))
       \<le> fst (fold activeStep xs (?accA, ?t))"
      by (rule Cons.IH[OF srt ge pos]) (use tpos le in auto)
    then show ?thesis using edit by (simp add: activeStep_pair)
  next
    case save
    have "fst (fold activeStep (filter (\<lambda>e. ev_type e \<in> set [FILE_EDIT, FILE_SAVE]) xs) (accC, c))
       \<le> fst (fold activeStep xs (accA, a))"
      by (rule Cons.IH[OF srt _ pos Cons.prems(4-7)]) (use Cons.prems(2) in auto)
    then show ?thesis using save by (simp add: activeStep_pair)
  next
    case act
    let ?accA = "if a \<noteq> 0 \<and> ?t - a < maxIdleTime then accA + (?t - a) else accA"
    have "fst (fold activeStep (filter (\<lambda>e. ev_type e \<in> set [FILE_EDIT, FILE_SAVE]) xs) (accC, c))
       \<le> fst (fold activeStep xs (?accA, ?t))"
      by (rule Cons.IH[OF srt ge pos]) (use Cons.prems(4-7) at in auto)
    then show ?thesis using act by (auto simp add: activeStep_pair)
  next
    case other
    have "fst (fold activeStep (filter (\<lambda>e. ev_type e \<in> set [FILE_EDIT, FILE_SAVE]) xs) (accC, c))
       \<le> fst (fold activeStep xs (accA, a))"
      by (rule Cons.IH[OF srt _ pos Cons.prems(4-7)]) (use Cons.prems(2) in auto)
    then show ?thesis using other by (simp add: activeStep_pair)
  qed
qed

text \<open>
  Claim C10. On a list whose timestamps are all positive, the coding time is at most
  the active time.
\<close>

theorem calculateCodingTime_le_calculateActiveTime:
  assumes "\<forall>e\<in>set es. 0 < timestamp e"
  shows "calculateCodingTime es \<le> calculateActiveTime es"
proof -
  have "calculateCodingTime es =
      fst (fold activeStep
            (filter (\<lambda>e. ev_type e \<in> set [FILE_EDIT, FILE_SAVE]) (sort_key timestamp es)) (0, 0))"
    unfolding calculateCodingTime_def calculateActiveTime_def by (simp only: filter_sort)
  also have "\<dots> \<le> fst (fold activeStep (sort_key timestamp es) (0, 0))"
    by (rule coding_fold_le_active_fold) (use assms in auto)
  finally show ?thesis by (simp add: calculateActiveTime_def)
qed

theorem calculateCodingTime_le_calculateActiveTime_witness:
  "calculateCodingTime
     [mkEvent FILE_EDIT 1000, mkEvent FILE_SWITCH 200000, mkEvent FILE_EDIT 400000]
   \<le> calculateActiveTime
       [mkEvent FILE_EDIT 1000, mkEvent FILE_SWITCH 200000, mkEvent FILE_EDIT 400000]
   \<and> calculateCodingTime
       [mkEvent FILE_EDIT 1000, mkEvent FILE_SWITCH 200000, mkEvent FILE_EDIT 400000] = 0
   \<and> calculateActiveTime
       [mkEvent FILE_EDIT 1000, mkEvent FILE_SWITCH 200000, mkEvent FILE_EDIT 400000] = 399000"
proof -
  let ?es = "[mkEvent FILE_EDIT 1000, mkEvent FILE_SWITCH 200000, mkEvent FILE_EDIT 400000]"
  have "\<forall>e\<in>set ?es. 0 < timestamp e" by (simp add: mkEvent_def)
  then have "calculateCodingTime ?es \<le> calculateActiveTime ?es"
    by (rule calculateCodingTime_le_calculateActiveTime)
  moreover have "calculateCodingTime ?es = 0"
    by (simp add: calculateCodingTime_def calculateActiveTime_def activeStep_pair mkEvent_def
        maxIdleTime_def)
  moreover have "calculateActiveTime ?es = 399000"
    by (simp add: calculateActiveTime_def activeStep_pair mkEvent_def maxIdleTime_def)
  ultimately show ?thesis by blast
qed

text \<open>
  The timestamps must not be \<open>0\<close> for this: with an edit at \<open>-100\<close>, a switch at \<open>0\<close>
  and an edit at \<open>100\<close> the coding time is 200 and the active time 100.
\<close>

lemma coding_time_above_active_time_at_zero:
  "calculateCodingTime [mkEvent FILE_EDIT (- 100), mkEvent FILE_SWITCH 0, mkEvent FILE_EDIT 100]
     = 200
   \<and> calculateActiveTime [mkEvent FILE_EDIT (- 100), mkEvent FILE_SWITCH 0, mkEvent FILE_EDIT 100]
     = 100"
  by (simp add: calculateCodingTime_def calculateActiveTime_def activeStep_pair mkEvent_def
      maxIdleTime_def)

subsection \<open>Debug time\<close>

lemma debugStep_pair:
  "debugStep e (acc, d) =
     (if ev_type e = DEBUG_START then (acc, timestamp e)
      else if ev_type e = DEBUG_STOP \<and> d \<noteq> 0 then (acc + (timestamp e - d), 0)
      else (acc, d))"
  by (simp add: debugStep_def)

lemma fold_debugStep_paired:
  "fst (fold debugStep xs (acc, d)) =
     acc + pairedDebugTime (if d = 0 then None else Some d) xs"
  by (induction xs arbitrary: acc d) (simp_all add: debugStep_pair)

lemma calculateDebugTime_eq_paired:
  "calculateDebugTime xs = pairedDebugTime None (sort_key timestamp xs)"
  by (simp add: calculateDebugTime_def fold_debugStep_paired)

lemma insort_key_snoc:
  "\<forall>x\<in>set ys. f x \<le> f s \<Longrightarrow> f a \<le> f s \<Longrightarrow>
     insort_key f a (ys @ [s]) = insort_key f a ys @ [s]"
  by (induction ys) simp_all

lemma sort_key_snoc:
  "\<forall>x\<in>set xs. f x \<le> f s \<Longrightarrow> sort_key f (xs @ [s]) = sort_key f xs @ [s]"
proof (induction xs)
  case Nil
  then show ?case by simp
next
  case (Cons x xs)
  then have "sort_key f (xs @ [s]) = sort_key f xs @ [s]" by simp
  moreover have "\<forall>y\<in>set (sort_key f xs). f y \<le> f s" using Cons.prems by simp
  ultimately show ?case using Cons.prems by (simp add: insort_key_snoc)
qed

lemma sort_key_Cons_least:
  "\<forall>x\<in>set xs. f p \<le> f x \<Longrightarrow> sort_key f (p # xs) = p # sort_key f xs"
  by (simp add: insort_is_Cons)

lemma pairedDebugTime_snoc_start:
  "ev_type s = DEBUG_START \<Longrightarrow> pairedDebugTime opened (xs @ [s]) = pairedDebugTime opened xs"
  by (induction xs arbitrary: opened) (simp_all split: option.splits)

text \<open>
  Claim C3, as the code has it. The debug time is the pairing of starts and stops in
  timestamp order, where a start at time \<open>0\<close> leaves no start open. A start at 1000
  and a stop at 121000 give 120000; a lone start gives 0. A start that comes after
  every other event adds nothing, and a stop that comes before every other event is
  ignored.
\<close>

theorem calculateDebugTime_paired:
  "calculateDebugTime es = pairedDebugTime None (sort_key timestamp es)
   \<and> calculateDebugTime [mkEvent DEBUG_START 1000, mkEvent DEBUG_STOP 121000] = 120000
   \<and> calculateDebugTime [mkEvent DEBUG_START t] = 0
   \<and> (ev_type s = DEBUG_START \<and> (\<forall>e\<in>set es. timestamp e \<le> timestamp s) \<longrightarrow>
        calculateDebugTime (es @ [s]) = calculateDebugTime es)
   \<and> (ev_type p = DEBUG_STOP \<and> (\<forall>e\<in>set es. timestamp p \<le> timestamp e) \<longrightarrow>
        calculateDebugTime (p # es) = calculateDebugTime es)"
proof -
  have a: "calculateDebugTime [mkEvent DEBUG_START 1000, mkEvent DEBUG_STOP 121000] = 120000
      \<and> calculateDebugTime [mkEvent DEBUG_START t] = 0"
    by (simp add: calculateDebugTime_def debugStep_pair mkEvent_def)
  have b: "calculateDebugTime (es @ [s]) = calculateDebugTime es"
    if "ev_type s = DEBUG_START" and "\<forall>e\<in>set es. timestamp e \<le> timestamp s"
    using that
    by (simp add: calculateDebugTime_eq_paired sort_key_snoc pairedDebugTime_snoc_start)
  have c: "calculateDebugTime (p # es) = calculateDebugTime es"
    if "ev_type p = DEBUG_STOP" and "\<forall>e\<in>set es. timestamp p \<le> timestamp e"
  proof -
    have "sort_key timestamp (p # es) = p # sort_key timestamp es"
      using that(2) by (rule sort_key_Cons_least)
    then show ?thesis using that(1) by (simp add: calculateDebugTime_eq_paired)
  qed
  show ?thesis using a b c calculateDebugTime_eq_paired by blast
qed

theorem calculateDebugTime_paired_witness:
  "calculateDebugTime
     ([mkEvent DEBUG_START 1000, mkEvent DEBUG_STOP 121000] @ [mkEvent DEBUG_START 200000])
     = 120000
   \<and> calculateDebugTime
       (mkEvent DEBUG_STOP 500 # [mkEvent DEBUG_START 1000, mkEvent DEBUG_STOP 121000])
     = 120000"
proof -
  let ?es = "[mkEvent DEBUG_START 1000, mkEvent DEBUG_STOP 121000]"
  note paired =
    calculateDebugTime_paired[of ?es 0 "mkEvent DEBUG_START 200000" "mkEvent DEBUG_STOP 500"]
  have v: "calculateDebugTime ?es = 120000" using paired by blast
  have "ev_type (mkEvent DEBUG_START 200000) = DEBUG_START
      \<and> (\<forall>e\<in>set ?es. timestamp e \<le> timestamp (mkEvent DEBUG_START 200000))"
    by (simp add: mkEvent_def)
  with paired
  have a: "calculateDebugTime (?es @ [mkEvent DEBUG_START 200000]) = calculateDebugTime ?es"
    by blast
  have "ev_type (mkEvent DEBUG_STOP 500) = DEBUG_STOP
      \<and> (\<forall>e\<in>set ?es. timestamp (mkEvent DEBUG_STOP 500) \<le> timestamp e)"
    by (simp add: mkEvent_def)
  with paired
  have b: "calculateDebugTime (mkEvent DEBUG_STOP 500 # ?es) = calculateDebugTime ?es"
    by blast
  show ?thesis using a b v by simp
qed

text \<open>
  Claim C3 as stated fails at its own example: a start at time 0 sets \<open>debugStart\<close> to
  \<open>0\<close>, which the loop reads as "no open start", so the stop at 120000 is ignored.
\<close>

theorem calculateDebugTime_epoch_counterexample:
  "calculateDebugTime [mkEvent DEBUG_START 0, mkEvent DEBUG_STOP 120000] = 0
   \<and> calculateDebugTime [mkEvent DEBUG_START 0, mkEvent DEBUG_STOP 120000] \<noteq> 120000"
  by (simp add: calculateDebugTime_def debugStep_pair mkEvent_def)

subsection \<open>Productivity score\<close>

lemma weights_range: "0 \<le> weights ty \<and> weights ty \<le> 5"
  by (cases ty) simp_all

lemma fold_weights_bounds:
  "acc \<le> fold (\<lambda>event score. score + weights (ev_type event)) es acc
   \<and> fold (\<lambda>event score. score + weights (ev_type event)) es acc \<le> acc + 5 * int (length es)"
proof (induction es arbitrary: acc)
  case Nil
  then show ?case by simp
next
  case (Cons e es)
  have w: "0 \<le> weights (ev_type e) \<and> weights (ev_type e) \<le> 5" by (rule weights_range)
  from Cons.IH[of "acc + weights (ev_type e)"] w show ?case by simp
qed

lemma bitLength_nonpos [simp]: "n \<le> 0 \<Longrightarrow> bitLength n = 0"
  by (simp add: bitLength.simps)

lemma bitLength_pos: "0 < n \<Longrightarrow> bitLength n = Suc (bitLength (n div 2))"
  by (subst bitLength.simps) simp

lemma bitLength_bounds:
  "0 < n \<Longrightarrow> 2 ^ (bitLength n - 1) \<le> n \<and> n < 2 ^ bitLength n"
proof (induction n rule: bitLength.induct)
  case (1 n)
  show ?case
  proof (cases "n div 2 \<le> 0")
    case True
    then have "n = 1" using "1.prems" by presburger
    then show ?thesis by (simp add: bitLength_pos)
  next
    case False
    then have h: "0 < n div 2" by simp
    have ih: "2 ^ (bitLength (n div 2) - 1) \<le> n div 2 \<and> n div 2 < 2 ^ bitLength (n div 2)"
      using "1.IH" "1.prems" h by simp
    have pos: "0 < bitLength (n div 2)" using h by (simp add: bitLength_pos)
    then obtain k where k: "bitLength (n div 2) = Suc k" by (cases "bitLength (n div 2)") auto
    have a: "2 ^ k \<le> n div 2" and b: "n div 2 < 2 ^ Suc k" using ih k by simp_all
    have "2 * 2 ^ k \<le> n" using a by presburger
    moreover have "n < 2 * 2 ^ Suc k" using b by presburger
    ultimately show ?thesis using "1.prems" k by (simp add: bitLength_pos)
  qed
qed

lemma rat_power_le_of_int: "2 ^ k \<le> m \<Longrightarrow> (2::rat) ^ k \<le> of_int m"
  by (metis of_int_le_iff of_int_numeral of_int_power)

lemma rat_of_int_le_power: "m < 2 ^ k \<Longrightarrow> (of_int (m + 1) :: rat) \<le> 2 ^ k"
proof -
  assume "m < 2 ^ k"
  then have "m + 1 \<le> 2 ^ k" by simp
  then show ?thesis by (metis of_int_le_iff of_int_numeral of_int_power)
qed

lemma binade_bounds:
  assumes "0 < x"
  shows "2 powi binade x \<le> x \<and> x < 2 powi (binade x + 1)"
proof (cases "1 \<le> x")
  case True
  let ?m = "\<lfloor>x\<rfloor>"
  have m: "0 < ?m" using True by simp
  from bitLength_bounds[OF m] have lo: "2 ^ (bitLength ?m - 1) \<le> ?m" and hi: "?m < 2 ^ bitLength ?m"
    by simp_all
  have bl: "0 < bitLength ?m" using m by (simp add: bitLength_pos)
  have e: "binade x = int (bitLength ?m - 1)" using True bl by (simp add: binade_def)
  have mx: "(of_int ?m :: rat) \<le> x" by simp
  have "(2::rat) ^ (bitLength ?m - 1) \<le> of_int ?m" using lo by (rule rat_power_le_of_int)
  then have "(2::rat) ^ (bitLength ?m - 1) \<le> x" using mx by (rule order_trans)
  then have 1: "2 powi binade x \<le> x" by (simp only: e power_int_of_nat)
  have "x < of_int (?m + 1)" by linarith
  also have "\<dots> \<le> (2::rat) ^ bitLength ?m" using hi by (rule rat_of_int_le_power)
  finally have "x < 2 ^ bitLength ?m" .
  moreover have "binade x + 1 = int (bitLength ?m)" using e bl by simp
  ultimately have 2: "x < 2 powi (binade x + 1)" by (simp only: power_int_of_nat)
  show ?thesis using 1 2 by simp
next
  case False
  let ?y = "1 / x"
  let ?m = "\<lceil>?y\<rceil> - 1"
  have y1: "1 < ?y" using False assms by simp
  have "2 \<le> \<lceil>?y\<rceil>" using y1 by (simp add: le_ceiling_iff)
  then have m: "0 < ?m" by simp
  from bitLength_bounds[OF m] have lo: "2 ^ (bitLength ?m - 1) \<le> ?m" and hi: "?m < 2 ^ bitLength ?m"
    by simp_all
  have bl: "0 < bitLength ?m" using m by (simp add: bitLength_pos)
  have e: "binade x = - int (bitLength ?m)" using False by (simp add: binade_def)
  have my: "(of_int ?m :: rat) < ?y" by linarith
  have "(2::rat) ^ (bitLength ?m - 1) \<le> of_int ?m" using lo by (rule rat_power_le_of_int)
  then have ylo: "(2::rat) ^ (bitLength ?m - 1) < ?y" using my by (rule le_less_trans)
  have "?y \<le> of_int (?m + 1)" by simp
  also have "\<dots> \<le> (2::rat) ^ bitLength ?m" using hi by (rule rat_of_int_le_power)
  finally have yhi: "?y \<le> 2 ^ bitLength ?m" .
  have 1: "2 powi binade x \<le> x"
  proof -
    have "1 \<le> x * 2 ^ bitLength ?m" using yhi assms by (simp add: field_simps)
    then have "1 / 2 ^ bitLength ?m \<le> x" by (simp add: field_simps)
    then show ?thesis by (simp add: e power_int_minus field_simps)
  qed
  have 2: "x < 2 powi (binade x + 1)"
  proof -
    have "x * 2 ^ (bitLength ?m - 1) < 1" using ylo assms by (simp add: field_simps)
    then have "x < 1 / 2 ^ (bitLength ?m - 1)" by (simp add: field_simps)
    moreover have "binade x + 1 = - int (bitLength ?m - 1)" using e bl by simp
    ultimately show ?thesis by (simp add: power_int_minus field_simps)
  qed
  show ?thesis using 1 2 by simp
qed

lemma binade_less:
  assumes "0 < x" and "x < 2 powi j"
  shows "binade x < j"
proof (rule ccontr)
  assume "\<not> binade x < j"
  then have "j \<le> binade x" by simp
  then have "(2::rat) powi j \<le> 2 powi binade x" by (rule power_int_increasing) simp
  also have "\<dots> \<le> x" using binade_bounds[OF assms(1)] by simp
  finally show False using assms(2) by simp
qed

lemma roundHalfEven_near: "\<bar>of_int (roundHalfEven z) - z\<bar> \<le> 1 / 2"
proof -
  have lo: "of_int \<lfloor>z\<rfloor> \<le> z" and hi: "z < of_int \<lfloor>z\<rfloor> + 1" by linarith+
  consider (down) "z - of_int \<lfloor>z\<rfloor> < 1 / 2"
    | (up) "1 / 2 < z - of_int \<lfloor>z\<rfloor>"
    | (tie) "z - of_int \<lfloor>z\<rfloor> = 1 / 2"
    by linarith
  then show ?thesis
  proof cases
    case down
    then have "roundHalfEven z = \<lfloor>z\<rfloor>" by (simp add: roundHalfEven_def)
    then show ?thesis using lo down by simp
  next
    case up
    then have "roundHalfEven z = \<lfloor>z\<rfloor> + 1" by (simp add: roundHalfEven_def)
    then show ?thesis using hi up by simp
  next
    case tie
    then have "roundHalfEven z = \<lfloor>z\<rfloor> \<or> roundHalfEven z = \<lfloor>z\<rfloor> + 1"
      by (simp add: roundHalfEven_def)
    then show ?thesis using tie by auto
  qed
qed

lemma roundHalfEven_le:
  assumes "z \<le> of_int n"
  shows "roundHalfEven z \<le> n"
proof -
  have f: "\<lfloor>z\<rfloor> \<le> n" using assms by (simp add: floor_le_iff)
  show ?thesis
  proof (cases "\<lfloor>z\<rfloor> = n")
    case True
    then have "z = of_int n" using assms by (metis floor_le_iff le_floor_iff order_antisym of_int_floor_le)
    then show ?thesis by (simp add: roundHalfEven_def)
  next
    case False
    then have "\<lfloor>z\<rfloor> + 1 \<le> n" using f by simp
    then show ?thesis using f by (simp add: roundHalfEven_def)
  qed
qed

lemma roundHalfEven_nonneg: "0 \<le> z \<Longrightarrow> 0 \<le> roundHalfEven z"
  by (simp add: roundHalfEven_def)

lemma toDouble_pos: "0 < x \<Longrightarrow> toDouble x = roundPositive x"
  by (simp add: toDouble_def)

lemma toDouble_nonneg: "0 \<le> x \<Longrightarrow> 0 \<le> toDouble x"
proof (cases "x = 0")
  case True
  then show ?thesis by (simp add: toDouble_def)
next
  case False
  assume "0 \<le> x"
  then have pos: "0 < x" using False by simp
  then have "0 \<le> x * 2 powi (52 - binade x)" by simp
  then have "0 \<le> roundHalfEven (x * 2 powi (52 - binade x))" by (rule roundHalfEven_nonneg)
  then show ?thesis using pos by (simp add: toDouble_pos roundPositive_def)
qed

lemma toDouble_le_int:
  assumes "0 < x" and "x \<le> of_int c" and "binade x \<le> 52"
  shows "toDouble x \<le> of_int c"
proof -
  let ?k = "nat (52 - binade x)"
  have s: "(2::rat) powi (52 - binade x) = of_int (2 ^ ?k)"
    using assms(3) by (simp add: power_int_nonneg_exp)
  have "x * of_int (2 ^ ?k) \<le> of_int c * of_int (2 ^ ?k)"
    using assms(2) by (intro mult_right_mono) simp_all
  then have "x * of_int (2 ^ ?k) \<le> of_int (c * 2 ^ ?k)" by simp
  then have "roundHalfEven (x * of_int (2 ^ ?k)) \<le> c * 2 ^ ?k" by (rule roundHalfEven_le)
  then have "(of_int (roundHalfEven (x * of_int (2 ^ ?k))) :: rat) \<le> of_int (c * 2 ^ ?k)"
    by (simp only: of_int_le_iff)
  then have "(of_int (roundHalfEven (x * of_int (2 ^ ?k))) :: rat) / of_int (2 ^ ?k) \<le> of_int c"
    by (simp add: field_simps)
  then show ?thesis using assms(1) by (simp only: toDouble_pos roundPositive_def s)
qed

lemma toDouble_error:
  assumes "0 < x"
  shows "\<bar>toDouble x - x\<bar> \<le> x / 2 ^ 53"
proof -
  let ?s = "(2::rat) powi (52 - binade x)"
  have spos: "0 < ?s" by simp
  have "2 powi binade x \<le> x" using binade_bounds[OF assms] by simp
  then have "2 powi binade x * ?s \<le> x * ?s" using spos by (intro mult_right_mono) simp_all
  moreover have "(2::rat) powi binade x * ?s = 2 powi 52"
    by (simp flip: power_int_add)
  ultimately have big: "2 ^ 52 \<le> x * ?s" by simp
  have "\<bar>of_int (roundHalfEven (x * ?s)) - x * ?s\<bar> \<le> 1 / 2" by (rule roundHalfEven_near)
  also have "\<dots> \<le> x * ?s / 2 ^ 53" using big by simp
  finally have "\<bar>of_int (roundHalfEven (x * ?s)) - x * ?s\<bar> / ?s \<le> (x * ?s / 2 ^ 53) / ?s"
    using spos by (intro divide_right_mono) simp_all
  moreover have "\<bar>of_int (roundHalfEven (x * ?s)) - x * ?s\<bar> / ?s
      = \<bar>of_int (roundHalfEven (x * ?s)) / ?s - x\<bar>"
  proof -
    have "\<bar>(of_int (roundHalfEven (x * ?s)) - x * ?s) / ?s\<bar>
        = \<bar>of_int (roundHalfEven (x * ?s)) - x * ?s\<bar> / \<bar>?s\<bar>"
      by (rule abs_divide)
    moreover have "(of_int (roundHalfEven (x * ?s)) - x * ?s) / ?s
        = of_int (roundHalfEven (x * ?s)) / ?s - x"
      using spos by (simp add: diff_divide_distrib)
    moreover have "\<bar>?s\<bar> = ?s" using spos by simp
    ultimately show ?thesis by simp
  qed
  moreover have "(x * ?s / 2 ^ 53) / ?s = x / 2 ^ 53" using spos by simp
  ultimately have "\<bar>of_int (roundHalfEven (x * ?s)) / ?s - x\<bar> \<le> x / 2 ^ 53" by simp
  then show ?thesis using assms by (simp add: toDouble_pos roundPositive_def)
qed

lemma scaled_quotient_bounds:
  assumes "0 \<le> s" and "s \<le> m" and "0 < m"
  shows "0 \<le> numTimes (numDivide (of_int s) (of_int m)) 100
       \<and> numTimes (numDivide (of_int s) (of_int m)) 100 \<le> 100
       \<and> \<bar>numTimes (numDivide (of_int s) (of_int m)) 100 - 100 * (of_int s / of_int m)\<bar>
           \<le> 200 / 2 ^ 53"
proof (cases "s = 0")
  case True
  then show ?thesis by (simp add: numTimes_def numDivide_def toDouble_def)
next
  case False
  let ?q = "of_int s / of_int m :: rat"
  let ?q' = "toDouble ?q"
  let ?p = "toDouble (?q' * 100)"
  have q0: "0 < ?q" using False assms by simp
  have q1: "?q \<le> 1" using assms by (simp add: divide_le_eq)
  have "?q < 2 powi 1" using q1 by simp
  then have "binade ?q < 1" using q0 by (rule binade_less[rotated])
  then have "?q' \<le> of_int 1" using q0 q1 by (intro toDouble_le_int) simp_all
  then have q'1: "?q' \<le> 1" by simp
  have eq: "\<bar>?q' - ?q\<bar> \<le> ?q / 2 ^ 53" using q0 by (rule toDouble_error)
  have "?q / 2 ^ 53 < ?q" using q0 by simp
  then have q'0: "0 < ?q'" using eq by linarith
  have x0: "0 < ?q' * 100" using q'0 by simp
  have x1: "?q' * 100 \<le> of_int 100" using q'1 by simp
  have "?q' * 100 < 2 powi 7" using x1 by simp
  then have "binade (?q' * 100) < 7" using x0 by (rule binade_less[rotated])
  then have p1: "?p \<le> of_int 100" using x0 x1 by (intro toDouble_le_int) simp_all
  have p0: "0 \<le> ?p" using x0 by (intro toDouble_nonneg) simp
  have ep: "\<bar>?p - ?q' * 100\<bar> \<le> ?q' * 100 / 2 ^ 53" using x0 by (rule toDouble_error)
  have split: "(?p - ?q' * 100) + 100 * (?q' - ?q) = ?p - 100 * ?q" by simp
  have scale: "\<bar>100 * (?q' - ?q)\<bar> = 100 * \<bar>?q' - ?q\<bar>" by (subst abs_mult) simp
  have "\<bar>(?p - ?q' * 100) + 100 * (?q' - ?q)\<bar>
      \<le> \<bar>?p - ?q' * 100\<bar> + \<bar>100 * (?q' - ?q)\<bar>"
    by (rule abs_triangle_ineq)
  then have "\<bar>?p - 100 * ?q\<bar> \<le> \<bar>?p - ?q' * 100\<bar> + 100 * \<bar>?q' - ?q\<bar>"
    by (simp only: split scale)
  also have "\<dots> \<le> ?q' * 100 / 2 ^ 53 + 100 * (?q / 2 ^ 53)"
    by (intro add_mono mult_left_mono ep eq) simp
  also have "\<dots> \<le> 1 * 100 / 2 ^ 53 + 100 * (1 / 2 ^ 53)"
    using q'1 q1 by (intro add_mono divide_right_mono mult_right_mono mult_left_mono) simp_all
  finally have "\<bar>?p - 100 * ?q\<bar> \<le> 200 / 2 ^ 53" by simp
  then show ?thesis using p0 p1 by (simp add: numTimes_def numDivide_def)
qed

lemma mathRound_near: "\<bar>of_int (mathRound x) - x\<bar> \<le> 1 / 2"
  unfolding mathRound_def by linarith

lemma mathRound_range:
  "0 \<le> x \<Longrightarrow> x \<le> 100 \<Longrightarrow> 0 \<le> mathRound x \<and> mathRound x \<le> 100"
  by (simp add: mathRound_def floor_le_iff)

lemma fold_weights_sum:
  "fold (\<lambda>event score. score + weights (ev_type event)) es acc
     = acc + sum_list (map (\<lambda>e. weights (ev_type e)) es)"
  by (induction es arbitrary: acc) simp_all

lemma score_of_nonempty:
  assumes "es \<noteq> []"
  shows "calculateProductivityScore es
       = mathRound (numTimes (numDivide (of_int (sum_list (map (\<lambda>e. weights (ev_type e)) es)))
                                 (of_int (int (length es) * 5))) 100)
     \<and> 0 \<le> calculateProductivityScore es \<and> calculateProductivityScore es \<le> 100
     \<and> \<bar>of_int (calculateProductivityScore es)
          - 100 * (of_int (sum_list (map (\<lambda>e. weights (ev_type e)) es))
                     / of_int (int (length es) * 5))\<bar>
         \<le> (1 / 2 + 1 / 2 ^ 45 :: rat)"
proof -
  let ?s = "sum_list (map (\<lambda>e. weights (ev_type e)) es)"
  let ?m = "int (length es) * 5"
  let ?p = "numTimes (numDivide (of_int ?s) (of_int ?m)) 100"
  have "0 \<le> ?s \<and> ?s \<le> ?m" using fold_weights_bounds[of 0 es] by (simp add: fold_weights_sum)
  moreover have "0 < ?m" using assms by simp
  ultimately have b: "0 \<le> ?p \<and> ?p \<le> 100 \<and> \<bar>?p - 100 * (of_int ?s / of_int ?m)\<bar> \<le> 200 / 2 ^ 53"
    using scaled_quotient_bounds[of ?s ?m] by blast
  then have r: "0 \<le> mathRound ?p \<and> mathRound ?p \<le> 100" using mathRound_range by blast
  have v: "calculateProductivityScore es = mathRound ?p"
    using assms r by (simp add: calculateProductivityScore_def Let_def fold_weights_sum)
  have split: "(of_int (mathRound ?p) - ?p) + (?p - 100 * (of_int ?s / of_int ?m))
      = of_int (mathRound ?p) - 100 * (of_int ?s / of_int ?m)"
    by simp
  have "\<bar>(of_int (mathRound ?p) - ?p) + (?p - 100 * (of_int ?s / of_int ?m))\<bar>
      \<le> \<bar>of_int (mathRound ?p) - ?p\<bar> + \<bar>?p - 100 * (of_int ?s / of_int ?m)\<bar>"
    by (rule abs_triangle_ineq)
  then have "\<bar>of_int (mathRound ?p) - 100 * (of_int ?s / of_int ?m)\<bar>
      \<le> \<bar>of_int (mathRound ?p) - ?p\<bar> + \<bar>?p - 100 * (of_int ?s / of_int ?m)\<bar>"
    by (simp only: split)
  also have "\<dots> \<le> 1 / 2 + 200 / 2 ^ 53" using mathRound_near[of ?p] b by linarith
  also have "\<dots> \<le> 1 / 2 + 1 / 2 ^ 45" by simp
  finally have "\<bar>of_int (mathRound ?p) - 100 * (of_int ?s / of_int ?m)\<bar>
      \<le> (1 / 2 + 1 / 2 ^ 45 :: rat)" .
  then have "\<bar>of_int (calculateProductivityScore es) - 100 * (of_int ?s / of_int ?m)\<bar>
      \<le> (1 / 2 + 1 / 2 ^ 45 :: rat)"
    by (simp only: v)
  moreover have "0 \<le> calculateProductivityScore es \<and> calculateProductivityScore es \<le> 100"
    using r by (simp only: v)
  ultimately show ?thesis using v by blast
qed

text \<open>
  Claim C7. The productivity score of the empty list is 0. The score of every list
  lies between 0 and 100, and every weight between 0 and 5 (a commit weighs 5, a
  created file 4, a closed file 0). The score of a nonempty list is within a half
  (and the rounding error of the two double operations, below \<open>2^-45\<close>) of 100 times
  the sum of the weights of its events divided by five times their number. Four
  commits, an edit and three closed files score 57; a single commit scores 100.
\<close>

theorem calculateProductivityScore_range:
  "calculateProductivityScore [] = 0
   \<and> 0 \<le> calculateProductivityScore es
   \<and> calculateProductivityScore es \<le> 100
   \<and> 0 \<le> weights ty \<and> weights ty \<le> 5
   \<and> weights GIT_COMMIT = 5 \<and> weights FILE_CREATE = 4 \<and> weights FILE_CLOSE = 0
   \<and> (es \<noteq> [] \<longrightarrow>
        \<bar>of_int (calculateProductivityScore es)
          - 100 * (of_int (sum_list (map (\<lambda>e. weights (ev_type e)) es))
                     / of_int (int (length es) * 5))\<bar>
         \<le> (1 / 2 + 1 / 2 ^ 45 :: rat))
   \<and> calculateProductivityScore sampleSlice = 57
   \<and> calculateProductivityScore [mkEvent GIT_COMMIT 1000] = 100"
proof -
  have e: "calculateProductivityScore [] = 0" by (simp add: calculateProductivityScore_def)
  have r: "0 \<le> calculateProductivityScore es \<and> calculateProductivityScore es \<le> 100"
  proof (cases "es = []")
    case True
    then show ?thesis by (simp add: e)
  next
    case False
    then show ?thesis using score_of_nonempty by blast
  qed
  have a: "es \<noteq> [] \<longrightarrow>
        \<bar>of_int (calculateProductivityScore es)
          - 100 * (of_int (sum_list (map (\<lambda>e. weights (ev_type e)) es))
                     / of_int (int (length es) * 5))\<bar>
         \<le> (1 / 2 + 1 / 2 ^ 45 :: rat)"
    using score_of_nonempty by blast
  have s: "calculateProductivityScore sampleSlice = 57" by code_simp
  have c: "calculateProductivityScore [mkEvent GIT_COMMIT 1000] = 100" by code_simp
  show ?thesis using e r a s c weights_range[of ty] by simp
qed

theorem calculateProductivityScore_range_witness:
  "sampleSlice \<noteq> []
   \<and> calculateProductivityScore sampleSlice = 57
   \<and> \<bar>(57 :: rat) - 100 * (23 / 40)\<bar> \<le> 1 / 2 + 1 / 2 ^ 45"
proof -
  have n: "sampleSlice \<noteq> []" by (simp add: sampleSlice_def)
  have w: "sum_list (map (\<lambda>e. weights (ev_type e)) sampleSlice) = 23
      \<and> int (length sampleSlice) * 5 = 40"
    by (simp add: sampleSlice_def mkEvent_def)
  note range = calculateProductivityScore_range[of sampleSlice FILE_EDIT]
  have v: "calculateProductivityScore sampleSlice = 57"
    using range by blast
  have b: "\<bar>of_int (calculateProductivityScore sampleSlice)
          - 100 * (of_int (sum_list (map (\<lambda>e. weights (ev_type e)) sampleSlice))
                     / of_int (int (length sampleSlice) * 5))\<bar>
         \<le> (1 / 2 + 1 / 2 ^ 45 :: rat)"
    using range n by blast
  have "\<bar>(57 :: rat) - 100 * (23 / 40)\<bar> \<le> 1 / 2 + 1 / 2 ^ 45"
    using b by (simp only: v w)
  then show ?thesis using n v by blast
qed

subsection \<open>Streaks\<close>

lemma streakLoop_current_untouched:
  "n < length d \<Longrightarrow> fst (streakLoop d n st) = fst st"
proof (induction n arbitrary: st)
  case 0
  then show ?case by simp
next
  case (Suc n)
  then have "fst (streakLoop d n (streakStep d n st)) = fst (streakStep d n st)" by simp
  moreover have "n \<noteq> length d - 1" using Suc.prems by arith
  then have "fst (streakStep d n st) = fst st"
    by (cases st) (simp add: streakStep_def)
  ultimately show ?case by simp
qed

text \<open>
  The current streak that the loop returns is 1 when the most recent bucket has
  events and 0 otherwise: \<open>currentStreak\<close> is assigned at the last index only. It is
  the length of the run that touches the most recent day, cut at 1.
\<close>

lemma streakOf_current:
  "current (streakOf d) = (if d \<noteq> [] \<and> day_events (last d) > 0 then 1 else 0)"
proof (cases d rule: rev_cases)
  case Nil
  then show ?thesis by (simp add: streakOf_def)
next
  case (snoc ys y)
  let ?st = "streakStep d (length ys) (0, 0, 0)"
  have "fst (streakLoop d (length d) (0, 0, 0)) = fst (streakLoop d (length ys) ?st)"
    using snoc by simp
  also have "\<dots> = fst ?st"
    by (rule streakLoop_current_untouched) (simp add: snoc)
  also have "\<dots> = (if day_events y > 0 then 1 else 0)"
    by (simp add: streakStep_def snoc)
  finally have "fst (streakLoop d (length d) (0, 0, 0)) = (if day_events y > 0 then 1 else 0)" .
  moreover have "current (streakOf d) = fst (streakLoop d (length d) (0, 0, 0))"
    by (simp add: streakOf_def split: prod.split)
  ultimately show ?thesis
    using snoc by simp
qed

lemma streakOf_current_capped:
  "current (streakOf d) = min 1 (leadingRun (countsBackward d))"
proof (cases d rule: rev_cases)
  case Nil
  then show ?thesis by (simp add: streakOf_current leadingRun_def countsBackward_def)
next
  case (snoc ys y)
  then show ?thesis by (simp add: streakOf_current leadingRun_def countsBackward_def)
qed

lemma leadingRun_le_longestRun: "leadingRun xs \<le> longestRun xs"
  by (cases xs) (simp_all add: leadingRun_def)

lemma fold_runStep:
  "(case fold runStep xs (l, t) of (l', t') \<Rightarrow> max l' t')
     = max l (max (t + leadingRun xs) (longestRun xs))"
proof (induction xs arbitrary: l t)
  case Nil
  then show ?case by (simp add: leadingRun_def)
next
  case (Cons x xs)
  show ?case
  proof (cases "0 < x")
    case True
    then show ?thesis using Cons.IH[of l "t + 1"] by (simp add: leadingRun_def)
  next
    case False
    then show ?thesis
      using Cons.IH[of "max l t" 0] leadingRun_le_longestRun[of xs]
      by (simp add: leadingRun_def)
  qed
qed

lemma snd_streakStep:
  "i < length d \<Longrightarrow> snd (streakStep d i (c, l, t)) = runStep (day_events (d ! i)) (l, t)"
  by (simp add: streakStep_def)

lemma snd_streakLoop:
  "n \<le> length d \<Longrightarrow>
     snd (streakLoop d n st) = fold runStep (rev (take n (map day_events d))) (snd st)"
proof (induction n arbitrary: st)
  case 0
  then show ?case by simp
next
  case (Suc n)
  obtain c l t where st: "st = (c, l, t)" by (cases st) auto
  have lt: "n < length d" using Suc.prems by simp
  have "take (Suc n) (map day_events d) = take n (map day_events d) @ [day_events (d ! n)]"
    using lt by (simp add: take_Suc_conv_app_nth)
  then have "fold runStep (rev (take (Suc n) (map day_events d))) (snd st)
      = fold runStep (rev (take n (map day_events d))) (runStep (day_events (d ! n)) (l, t))"
    by (simp add: st)
  also have "\<dots> = fold runStep (rev (take n (map day_events d))) (snd (streakStep d n st))"
    using lt by (simp add: snd_streakStep st)
  also have "\<dots> = snd (streakLoop d n (streakStep d n st))"
    using Suc.IH[of "streakStep d n st"] lt by simp
  finally show ?case by simp
qed

text \<open>
  The longest streak that the loop returns is the length of the longest run of days
  with events.
\<close>

lemma streakOf_longest: "longest (streakOf d) = longestRun (countsBackward d)"
proof -
  obtain c l t where r: "streakLoop d (length d) (0, 0, 0) = (c, l, t)"
    by (cases "streakLoop d (length d) (0, 0, 0)") auto
  have "(l, t) = fold runStep (countsBackward d) (0, 0)"
    using snd_streakLoop[of "length d" d "(0, 0, 0)"] r by (simp add: countsBackward_def)
  then have "max l t
      = max 0 (max (0 + leadingRun (countsBackward d)) (longestRun (countsBackward d)))"
    using fold_runStep[of "countsBackward d" 0 0] by (simp split: prod.splits)
  then have "max l t = longestRun (countsBackward d)"
    using leadingRun_le_longestRun[of "countsBackward d"] by simp
  then show ?thesis by (simp add: streakOf_def r)
qed

lemma threeDay_histogram:
  "map day_events (getDailyActivity (utcSeedKey (86400000 * 100 + 5000)) threeDayLog 7)
     = [0, 0, 0, 0, 1, 1, 1]"
  by code_simp

text \<open>
  Claim C1 at a window of seven days whose three most recent days, and no other, have
  events: the code returns a longest streak of 3 and a current streak of 1, where the
  claim says 3.
\<close>

theorem calculateStreakData_three_recent_days:
  "calculateStreakData (utcSeedKey (86400000 * 100 + 5000))
     (emptyManager\<lparr>events := threeDayLog\<rparr>) 7
   = \<lparr>current = 1, longest = 3\<rparr>"
  by code_simp

section \<open>Event store: theorems\<close>

lemma keptEvents_value: "keptEvents = 40000"
  by (simp add: keptEvents_def maxEvents_def)

lemma events_addEvent:
  "events (addEvent now event dm) =
     (if length (events dm) \<ge> maxEvents
      then sliceLast keptEvents (events dm @ [event])
      else events dm @ [event])"
  by (simp add: addEvent_def Let_def)

lemma sliceLast_snoc:
  "0 < k \<Longrightarrow> sliceLast k (xs @ [x]) = sliceLast (k - 1) xs @ [x]"
  by (cases k) (simp_all add: sliceLast_def Suc_diff_le)

lemma addEvent_last:
  "events (addEvent now event dm) \<noteq> [] \<and> last (events (addEvent now event dm)) = event"
proof (cases "length (events dm) \<ge> maxEvents")
  case True
  have "sliceLast keptEvents (events dm @ [event])
      = sliceLast (keptEvents - 1) (events dm) @ [event]"
    by (rule sliceLast_snoc) (simp add: keptEvents_value)
  with True show ?thesis by (simp add: events_addEvent)
next
  case False
  then show ?thesis by (simp add: events_addEvent)
qed

text \<open>
  Claim C4. After \<open>addEvent\<close> the log holds at most \<open>maxEvents\<close> (50000) events and
  ends with the event just appended. When the append takes the log over the maximum,
  the log becomes the 40000 newest events, in their order; otherwise it is the old log
  with the event at the end.
\<close>

theorem addEvent_bounded:
  "length (events (addEvent now event dm)) \<le> maxEvents
   \<and> maxEvents = 50000
   \<and> events (addEvent now event dm) \<noteq> []
   \<and> last (events (addEvent now event dm)) = event
   \<and> (if length (events dm) + 1 > maxEvents
      then length (events (addEvent now event dm)) = 40000
         \<and> events (addEvent now event dm)
             = drop (length (events dm) + 1 - 40000) (events dm @ [event])
      else events (addEvent now event dm) = events dm @ [event])"
proof (cases "length (events dm) \<ge> maxEvents")
  case True
  then have ev: "events (addEvent now event dm) = sliceLast keptEvents (events dm @ [event])"
    by (simp add: events_addEvent)
  have len: "length (sliceLast keptEvents (events dm @ [event])) = 40000"
    using True by (simp add: sliceLast_def keptEvents_value maxEvents_def)
  have dr: "sliceLast keptEvents (events dm @ [event])
      = drop (length (events dm) + 1 - 40000) (events dm @ [event])"
    by (simp add: sliceLast_def keptEvents_value)
  have "length (events (addEvent now event dm)) \<le> maxEvents"
    by (simp add: ev len maxEvents_def)
  moreover have "length (events (addEvent now event dm)) = 40000"
    by (simp add: ev len)
  moreover have "events (addEvent now event dm)
      = drop (length (events dm) + 1 - 40000) (events dm @ [event])"
    by (simp only: ev dr)
  moreover have "length (events dm) + 1 > maxEvents" using True by simp
  ultimately show ?thesis using addEvent_last[of now event dm]
    by (simp add: maxEvents_def)
next
  case False
  then show ?thesis using addEvent_last[of now event dm]
    by (simp add: events_addEvent maxEvents_def)
qed

text \<open>
  Claim C8. \<open>getEvents\<close> returns the events of the log that lie in the window (each
  bound inclusive, and applied only when given), in the order of the log, and leaves
  the store as it was; after \<open>addEvent\<close>, a query with no bounds ends with the event
  appended.
\<close>

theorem getEvents_filters_in_order:
  "fst (getEvents startDate endDate dm) = filter (inWindow startDate endDate) (events dm)
   \<and> snd (getEvents startDate endDate dm) = dm
   \<and> fst (getEvents None None (addEvent now event dm)) \<noteq> []
   \<and> last (fst (getEvents None None (addEvent now event dm))) = event"
proof -
  have a: "fst (getEvents startDate endDate dm) = filter (inWindow startDate endDate) (events dm)"
    by (cases startDate; cases endDate)
      (auto simp add: getEvents_def inWindow_def intro!: filter_cong)
  have b: "snd (getEvents startDate endDate dm) = dm"
    by (simp add: getEvents_def Let_def)
  have c: "fst (getEvents None None (addEvent now event dm)) = events (addEvent now event dm)"
    by (simp add: getEvents_def)
  show ?thesis using a b c addEvent_last[of now event dm] by simp
qed

section \<open>Sync client: theorems\<close>

lemma sync_nothing_selected:
  assumes "eventsToSync dm = []" and "sessionsToSync dm = []"
  shows "syncDataWithAPI True post now dm = (noNewData, dm)"
  using assms by (simp add: syncDataWithAPI_def syncTry_def noNewData_def)

lemma eventsToSync_empty:
  "eventsToSync dm = [] \<longleftrightarrow> (\<forall>e\<in>set (events dm). timestamp e \<le> watermark dm)"
  by (auto simp add: eventsToSync_def filter_empty_conv)

lemma sessionsToSync_empty:
  "sessionsToSync dm = [] \<longleftrightarrow> (\<forall>s\<in>set (sessions dm). startTime s \<le> watermark dm)"
  by (auto simp add: sessionsToSync_def filter_empty_conv)

lemma sync_disabled: "syncDataWithAPI False post now dm = (syncNotEnabled, dm)"
  by (simp add: syncDataWithAPI_def syncTry_def syncNotEnabled_def)

text \<open>The five ways an enabled sync ends.\<close>

lemma sync_enabled_cases:
  assumes "syncDataWithAPI True post now dm = (r, dm')"
  shows "(\<not> pendingData dm \<and> r = noNewData \<and> dm' = dm)
   \<or> (pendingData dm \<and> tokenMissing dm \<and> r = notAuthenticated \<and> dm' = dm)
   \<or> (pendingData dm \<and> \<not> tokenMissing dm
        \<and> (\<exists>t. post (eventsToSync dm) (sessionsToSync dm) = Rejected t
               \<and> r = \<lparr>success = False, message = None, error = Some (catchMessage t)\<rparr>)
        \<and> dm' = dm\<lparr>requests := requests dm @ [(eventsToSync dm, sessionsToSync dm)]\<rparr>)
   \<or> (pendingData dm \<and> \<not> tokenMissing dm
        \<and> post (eventsToSync dm) (sessionsToSync dm) = Responded r \<and> \<not> success r
        \<and> dm' = dm\<lparr>requests := requests dm @ [(eventsToSync dm, sessionsToSync dm)]\<rparr>)
   \<or> (pendingData dm \<and> \<not> tokenMissing dm
        \<and> post (eventsToSync dm) (sessionsToSync dm) = Responded r \<and> success r
        \<and> dm' = dm\<lparr>requests := requests dm @ [(eventsToSync dm, sessionsToSync dm)],
                     lastSyncTime := Some now\<rparr>)"
  using assms
  by (auto simp add: syncDataWithAPI_def syncTry_def syncActivityData_def pendingData_def
      tokenMissing_def noNewData_def notAuthenticated_def
      split: if_splits HttpOutcome.splits)

text \<open>
  Claim C5, as the code has it. When every stored event and every stored session is
  at or before the watermark, a sync with \<open>enableSync\<close> on returns the success result
  "No new data to sync" and leaves the store as it was: no request is posted and the
  watermark stays; with \<open>enableSync\<close> off it returns the failure "Sync not enabled",
  the store again as it was. And after a sync that succeeded at time \<open>now\<close>, with no
  event or session later than \<open>now\<close>, the next sync returns "No new data to sync" and
  posts nothing.
\<close>

theorem sync_no_new_data_when_enabled:
  "((\<forall>e\<in>set (events dm). timestamp e \<le> watermark dm)
      \<and> (\<forall>s\<in>set (sessions dm). startTime s \<le> watermark dm)
     \<longrightarrow> syncDataWithAPI True post now dm = (noNewData, dm)
       \<and> syncDataWithAPI False post now dm = (syncNotEnabled, dm))
   \<and> (success (fst (syncDataWithAPI True post now dm))
      \<and> (\<forall>e\<in>set (events dm). timestamp e \<le> now)
      \<and> (\<forall>s\<in>set (sessions dm). startTime s \<le> now)
     \<longrightarrow> syncDataWithAPI True post' now' (snd (syncDataWithAPI True post now dm))
          = (noNewData, snd (syncDataWithAPI True post now dm)))"
proof (intro conjI impI)
  assume h: "(\<forall>e\<in>set (events dm). timestamp e \<le> watermark dm)
      \<and> (\<forall>s\<in>set (sessions dm). startTime s \<le> watermark dm)"
  then show "syncDataWithAPI True post now dm = (noNewData, dm)"
    by (intro sync_nothing_selected) (simp_all add: eventsToSync_empty sessionsToSync_empty)
  show "syncDataWithAPI False post now dm = (syncNotEnabled, dm)"
    by (rule sync_disabled)
next
  let ?r = "fst (syncDataWithAPI True post now dm)"
  let ?dm = "snd (syncDataWithAPI True post now dm)"
  assume h: "success ?r \<and> (\<forall>e\<in>set (events dm). timestamp e \<le> now)
      \<and> (\<forall>s\<in>set (sessions dm). startTime s \<le> now)"
  have eq: "syncDataWithAPI True post now dm = (?r, ?dm)" by simp
  from sync_enabled_cases[OF eq] h
  have "(\<not> pendingData dm \<and> ?dm = dm)
      \<or> ?dm = dm\<lparr>requests := requests dm @ [(eventsToSync dm, sessionsToSync dm)],
                     lastSyncTime := Some now\<rparr>"
    by (auto simp add: notAuthenticated_def)
  then have "eventsToSync ?dm = [] \<and> sessionsToSync ?dm = []"
  proof
    assume "\<not> pendingData dm \<and> ?dm = dm"
    then show ?thesis by (simp add: pendingData_def)
  next
    assume a: "?dm = dm\<lparr>requests := requests dm @ [(eventsToSync dm, sessionsToSync dm)],
                     lastSyncTime := Some now\<rparr>"
    show ?thesis
      unfolding eventsToSync_empty sessionsToSync_empty
      by (subst a, subst a, subst a, subst a) (use h in \<open>simp add: watermark_def\<close>)
  qed
  then show "syncDataWithAPI True post' now' ?dm = (noNewData, ?dm)"
    by (intro sync_nothing_selected) simp_all
qed

lemma sync_okApi_dmPending:
  "syncDataWithAPI True okApi 20 dmPending =
      (\<lparr>success = True, message = None, error = None\<rparr>,
       dmPending\<lparr>requests := [([mkEvent FILE_EDIT 5], [])], lastSyncTime := Some 20\<rparr>)"
  by (simp add: syncDataWithAPI_def syncTry_def syncActivityData_def eventsToSync_def
      sessionsToSync_def watermark_def dmPending_def emptyManager_def okApi_def mkEvent_def)

theorem sync_no_new_data_when_enabled_witness:
  "syncDataWithAPI True failingApi 20 dmSynced = (noNewData, dmSynced)
   \<and> syncDataWithAPI False failingApi 20 dmSynced = (syncNotEnabled, dmSynced)
   \<and> requests (snd (syncDataWithAPI True okApi 20 dmPending)) = [([mkEvent FILE_EDIT 5], [])]
   \<and> lastSyncTime (snd (syncDataWithAPI True okApi 20 dmPending)) = Some 20
   \<and> syncDataWithAPI True failingApi 21 (snd (syncDataWithAPI True okApi 20 dmPending))
       = (noNewData, snd (syncDataWithAPI True okApi 20 dmPending))"
proof -
  have h1: "(\<forall>e\<in>set (events dmSynced). timestamp e \<le> watermark dmSynced)
      \<and> (\<forall>s\<in>set (sessions dmSynced). startTime s \<le> watermark dmSynced)"
    by (simp add: dmSynced_def emptyManager_def watermark_def mkEvent_def)
  have "success (fst (syncDataWithAPI True okApi 20 dmPending))"
    by (simp add: sync_okApi_dmPending)
  moreover have "(\<forall>e\<in>set (events dmPending). timestamp e \<le> 20)
      \<and> (\<forall>s\<in>set (sessions dmPending). startTime s \<le> 20)"
    by (simp add: dmPending_def emptyManager_def mkEvent_def)
  ultimately have h2: "success (fst (syncDataWithAPI True okApi 20 dmPending))
      \<and> (\<forall>e\<in>set (events dmPending). timestamp e \<le> 20)
      \<and> (\<forall>s\<in>set (sessions dmPending). startTime s \<le> 20)"
    by blast
  from sync_no_new_data_when_enabled[of dmSynced failingApi 20 failingApi 21] h1
  have a: "syncDataWithAPI True failingApi 20 dmSynced = (noNewData, dmSynced)
       \<and> syncDataWithAPI False failingApi 20 dmSynced = (syncNotEnabled, dmSynced)"
    by blast
  from sync_no_new_data_when_enabled[of dmPending okApi 20 failingApi 21] h2
  have b: "syncDataWithAPI True failingApi 21 (snd (syncDataWithAPI True okApi 20 dmPending))
       = (noNewData, snd (syncDataWithAPI True okApi 20 dmPending))"
    by blast
  have c: "requests (snd (syncDataWithAPI True okApi 20 dmPending)) = [([mkEvent FILE_EDIT 5], [])]
   \<and> lastSyncTime (snd (syncDataWithAPI True okApi 20 dmPending)) = Some 20"
    by (simp add: sync_okApi_dmPending)
  show ?thesis using a b c by blast
qed

text \<open>
  Claim C5 as stated fails when the configuration option \<open>enableSync\<close> is off: the
  only stored event is older than the watermark and there is no session, yet the call
  returns \<open>success: false\<close> with the message "Sync not enabled".
\<close>

theorem sync_disabled_counterexample:
  "list_all (\<lambda>e. timestamp e \<le> watermark dmSynced) (events dmSynced)
   \<and> list_all (\<lambda>s. startTime s \<le> watermark dmSynced) (sessions dmSynced)
   \<and> \<not> success (fst (syncDataWithAPI False okApi 20 dmSynced))
   \<and> message (fst (syncDataWithAPI False okApi 20 dmSynced)) = Some ''Sync not enabled''"
  by (simp add: syncDataWithAPI_def syncTry_def dmSynced_def emptyManager_def watermark_def
      mkEvent_def)

text \<open>
  Claim C6. Whatever a call of \<open>syncDataWithAPI\<close> returns: if the result is a
  failure the watermark is unchanged; if the watermark changed, the remote API
  answered with the result returned, that result reports success, and the watermark
  is \<open>now\<close>. With data to send, a missing token gives the result "Not authenticated",
  a request that fails gives a failure result carrying the message of the error
  (nothing is thrown past the \<open>catch\<close>), and a response with \<open>success: false\<close> is
  returned as it is.
\<close>

theorem sync_failure_keeps_watermark:
  assumes "syncDataWithAPI syncEnabled post now dm = (r, dm')"
  shows "(\<not> success r \<longrightarrow> lastSyncTime dm' = lastSyncTime dm)
   \<and> (lastSyncTime dm' \<noteq> lastSyncTime dm \<longrightarrow>
        success r \<and> lastSyncTime dm' = Some now
        \<and> post (eventsToSync dm) (sessionsToSync dm) = Responded r)
   \<and> (syncEnabled \<and> pendingData dm \<and> tokenMissing dm \<longrightarrow> r = notAuthenticated)
   \<and> (\<forall>t. syncEnabled \<and> pendingData dm \<and> \<not> tokenMissing dm
          \<and> post (eventsToSync dm) (sessionsToSync dm) = Rejected t \<longrightarrow>
        r = \<lparr>success = False, message = None, error = Some (catchMessage t)\<rparr>)
   \<and> (\<forall>d. syncEnabled \<and> pendingData dm \<and> \<not> tokenMissing dm
          \<and> post (eventsToSync dm) (sessionsToSync dm) = Responded d \<and> \<not> success d \<longrightarrow>
        r = d)"
proof (cases syncEnabled)
  case False
  with assms have "r = syncNotEnabled \<and> dm' = dm" by (simp add: sync_disabled)
  then show ?thesis using False by (simp add: syncNotEnabled_def)
next
  case True
  with assms have "syncDataWithAPI True post now dm = (r, dm')" by simp
  from sync_enabled_cases[OF this] show ?thesis
    by (elim disjE conjE exE) (auto simp add: noNewData_def notAuthenticated_def)
qed


lemma dmPending_facts:
  "pendingData dmPending \<and> \<not> tokenMissing dmPending \<and> lastSyncTime dmPending = None
   \<and> pendingData (dmPending\<lparr>sessionToken := None\<rparr>)
   \<and> tokenMissing (dmPending\<lparr>sessionToken := None\<rparr>)
   \<and> lastSyncTime (dmPending\<lparr>sessionToken := None\<rparr>) = None"
  by (simp add: pendingData_def tokenMissing_def eventsToSync_def sessionsToSync_def
      watermark_def dmPending_def emptyManager_def mkEvent_def)

theorem sync_failure_keeps_watermark_witness:
  "fst (syncDataWithAPI True failingApi 20 dmPending)
     = \<lparr>success = False, message = None, error = Some ''Network Error''\<rparr>
   \<and> lastSyncTime (snd (syncDataWithAPI True failingApi 20 dmPending)) = None
   \<and> fst (syncDataWithAPI True refusingApi 20 dmPending)
     = \<lparr>success = False, message = None, error = Some ''Invalid payload''\<rparr>
   \<and> lastSyncTime (snd (syncDataWithAPI True refusingApi 20 dmPending)) = None
   \<and> fst (syncDataWithAPI True okApi 20 (dmPending\<lparr>sessionToken := None\<rparr>)) = notAuthenticated
   \<and> lastSyncTime (snd (syncDataWithAPI True okApi 20 (dmPending\<lparr>sessionToken := None\<rparr>))) = None"
proof -
  let ?net = "syncDataWithAPI True failingApi 20 dmPending"
  let ?ref = "syncDataWithAPI True refusingApi 20 dmPending"
  let ?tok = "syncDataWithAPI True okApi 20 (dmPending\<lparr>sessionToken := None\<rparr>)"
  have n: "failingApi (eventsToSync dmPending) (sessionsToSync dmPending)
      = Rejected (ErrorObject ''Network Error'')"
    by (simp add: failingApi_def)
  have r: "refusingApi (eventsToSync dmPending) (sessionsToSync dmPending)
      = Responded \<lparr>success = False, message = None, error = Some ''Invalid payload''\<rparr>"
    by (simp add: refusingApi_def)
  have "?net = (fst ?net, snd ?net)" by simp
  from sync_failure_keeps_watermark[OF this] n dmPending_facts
  have a: "fst ?net = \<lparr>success = False, message = None, error = Some ''Network Error''\<rparr>
      \<and> lastSyncTime (snd ?net) = None"
    by (auto simp add: catchMessage_def)
  have "?ref = (fst ?ref, snd ?ref)" by simp
  from sync_failure_keeps_watermark[OF this] r dmPending_facts
  have b: "fst ?ref = \<lparr>success = False, message = None, error = Some ''Invalid payload''\<rparr>
      \<and> lastSyncTime (snd ?ref) = None"
    by auto
  have "?tok = (fst ?tok, snd ?tok)" by simp
  from sync_failure_keeps_watermark[OF this] dmPending_facts
  have c: "fst ?tok = notAuthenticated \<and> lastSyncTime (snd ?tok) = None"
    by (auto simp add: notAuthenticated_def)
  show ?thesis using a b c by blast
qed

section \<open>Event normalizer: theorems\<close>

lemma tracked_dropEntry: "tracked (dropEntry path tr) = tracked tr"
  by (simp add: dropEntry_def)

lemma editBuffer_dropEntry: "editBuffer (dropEntry path tr) path = None"
  by (simp add: dropEntry_def)

text \<open>
  Claim C9. Flushing the buffer of a file removes its entry. If the entry counts no
  added and no deleted character, no event is emitted. If an event is emitted, it is
  one \<open>FILE_EDIT\<close> event that carries the two counts of the entry and whose edit type
  is \<open>replace\<close> when both counts are nonzero, \<open>insert\<close> when only the additions are,
  \<open>delete\<close> when only the deletions are. An event is emitted when a count is
  nonzero, the document is open, tracking is enabled and the tracker is active.
\<close>

theorem flushEditBuffer_edit_type:
  assumes "editBuffer tr path = Some buffer"
  shows "(added buffer = 0 \<and> deleted buffer = 0 \<longrightarrow>
            tracked (flushEditBuffer docs enabled path tr) = tracked tr)
   \<and> editBuffer (flushEditBuffer docs enabled path tr) path = None
   \<and> (tracked (flushEditBuffer docs enabled path tr) = tracked tr
      \<or> (\<exists>d. tracked (flushEditBuffer docs enabled path tr) = tracked tr @ [(FILE_EDIT, EditData d)]
            \<and> derivedEditType (added buffer) (deleted buffer) = Some (editType d)
            \<and> charactersAdded d = added buffer
            \<and> charactersDeleted d = deleted buffer))
   \<and> (\<forall>doc. find (\<lambda>doc. doc_fsPath doc = path) docs = Some doc \<and> enabled \<and> isActive tr
            \<and> (added buffer \<noteq> 0 \<or> deleted buffer \<noteq> 0) \<longrightarrow>
          tracked (flushEditBuffer docs enabled path tr) \<noteq> tracked tr)"
  using assms
  by (auto simp add: flushEditBuffer_def tracked_dropEntry editBuffer_dropEntry trackEvent_def
      derivedEditType_def Let_def split: option.splits)

theorem flushEditBuffer_edit_type_witness:
  "tracked (flushEditBuffer [sampleDoc] True ''/src/app.ts'' sampleTracker)
     = [(FILE_EDIT, EditData \<lparr>fileName = ''app.ts'', filePath = ''/src/app.ts'',
          language = ''typescript'', charactersAdded = 0, charactersDeleted = 4,
          editType = Delete\<rparr>)]
   \<and> editBuffer (flushEditBuffer [sampleDoc] True ''/src/app.ts'' sampleTracker) ''/src/app.ts''
     = None"
proof -
  let ?tr' = "flushEditBuffer [sampleDoc] True ''/src/app.ts'' sampleTracker"
  have b: "editBuffer sampleTracker ''/src/app.ts'' = Some \<lparr>added = 0, deleted = 4, edits = 2\<rparr>"
    by (simp add: sampleTracker_def)
  have f: "find (\<lambda>doc. doc_fsPath doc = ''/src/app.ts'') [sampleDoc] = Some sampleDoc"
    by (simp add: sampleDoc_def)
  have t: "tracked sampleTracker = [] \<and> isActive sampleTracker"
    by (simp add: sampleTracker_def)
  have fd: "getFileData sampleDoc
      = \<lparr>fileName = ''app.ts'', filePath = ''/src/app.ts'', language = ''typescript''\<rparr>"
    by (simp add: getFileData_def lastPathPart_def sampleDoc_def)
  note flushed = flushEditBuffer_edit_type[OF b, of "[sampleDoc]" True]
  have gone: "editBuffer ?tr' ''/src/app.ts'' = None"
    using flushed by blast
  have "\<forall>doc. find (\<lambda>doc. doc_fsPath doc = ''/src/app.ts'') [sampleDoc] = Some doc
          \<longrightarrow> tracked ?tr' \<noteq> tracked sampleTracker"
    using flushed t by simp
  then have some: "tracked ?tr' \<noteq> []"
    using f t by metis
  have shape: "tracked ?tr' = []
      \<or> (\<exists>d. tracked ?tr' = [(FILE_EDIT, EditData d)]
            \<and> derivedEditType 0 4 = Some (editType d)
            \<and> charactersAdded d = 0 \<and> charactersDeleted d = 4)"
    using flushed t by simp
  from some shape obtain d where d: "tracked ?tr' = [(FILE_EDIT, EditData d)]"
    and ty: "derivedEditType 0 4 = Some (editType d)" by blast
  have "editType d = Delete" using ty by (simp add: derivedEditType_def)
  moreover have "tracked ?tr'
      = [(FILE_EDIT, EditData \<lparr>fileName = ''app.ts'', filePath = ''/src/app.ts'',
          language = ''typescript'', charactersAdded = 0, charactersDeleted = 4,
          editType = Delete\<rparr>)]"
  proof -
    have p: "doc_fsPath sampleDoc = ''/src/app.ts''" by (simp add: sampleDoc_def)
    show ?thesis
      by (simp add: flushEditBuffer_def b p fd tracked_dropEntry trackEvent_def t)
  qed
  ultimately show ?thesis using gone by simp
qed


end
